theory Spec2Isabelle
  imports Complex_Main "HOL-Library.AList"
begin

section \<open>Python strings and numbers\<close>

text \<open>
  The configuration manager of \<^verbatim>\<open>src/config.py\<close> is embedded. Strings are
  sequences of ASCII characters. \<^verbatim>\<open>str.lower\<close> and \<^verbatim>\<open>str.upper\<close> change
  the 26 letters only, \<^verbatim>\<open>str.strip\<close> removes the ASCII white space of Python
  (code points 9 to 13 and 28 to 32) at both ends.
\<close>

definition upper_letters :: string where
  "upper_letters = ''ABCDEFGHIJKLMNOPQRSTUVWXYZ''"

definition lower_letters :: string where
  "lower_letters = ''abcdefghijklmnopqrstuvwxyz''"

definition lower_char :: "char \<Rightarrow> char" where
  "lower_char c = (case map_of (zip upper_letters lower_letters) c of Some d \<Rightarrow> d | None \<Rightarrow> c)"

definition upper_char :: "char \<Rightarrow> char" where
  "upper_char c = (case map_of (zip lower_letters upper_letters) c of Some d \<Rightarrow> d | None \<Rightarrow> c)"

definition py_lower :: "string \<Rightarrow> string" where
  "py_lower s = map lower_char s"

definition py_upper :: "string \<Rightarrow> string" where
  "py_upper s = map upper_char s"

definition is_space :: "char \<Rightarrow> bool" where
  "is_space c = (c \<in> set [CHR 0x09, CHR 0x0A, CHR 0x0B, CHR 0x0C, CHR 0x0D,
                            CHR 0x1C, CHR 0x1D, CHR 0x1E, CHR 0x1F, CHR '' ''])"

definition py_strip :: "string \<Rightarrow> string" where
  "py_strip s = rev (dropWhile is_space (rev (dropWhile is_space s)))"

text \<open>\<^verbatim>\<open>s.split(sep)\<close> for a one-character separator: never an empty list.\<close>

fun py_split :: "char \<Rightarrow> string \<Rightarrow> string list" where
  "py_split sep [] = [[]]"
| "py_split sep (c # cs) =
     (if c = sep then [] # py_split sep cs
      else (case py_split sep cs of
              w # ws \<Rightarrow> (c # w) # ws
            | [] \<Rightarrow> [[c]]))"

definition digit_val :: "char \<Rightarrow> nat option" where
  "digit_val c = map_of (zip ''0123456789'' [0, 1, 2, 3, 4, 5, 6, 7, 8, 9]) c"

text \<open>
  A digit part of a Python numeric string: digits, with single underscores allowed
  between two digits. \<open>digit_part s\<close> is the list of digit values, or \<open>None\<close>
  when \<open>s\<close> is not a digit part.
\<close>

fun digit_part :: "string \<Rightarrow> nat list option" where
  "digit_part [] = None"
| "digit_part [c] = map_option (\<lambda>d. [d]) (digit_val c)"
| "digit_part (c # d # cs) =
     (case digit_val c of
        None \<Rightarrow> None
      | Some v \<Rightarrow>
          (if d = CHR ''_'' then map_option ((#) v) (digit_part cs)
           else map_option ((#) v) (digit_part (d # cs))))"

definition decimal :: "nat list \<Rightarrow> nat" where
  "decimal ds = foldl (\<lambda>a d. 10 * a + d) 0 ds"

text \<open>An optional sign in front: the sign (\<open>True\<close> for minus) and the rest.\<close>

fun split_sign :: "string \<Rightarrow> bool \<times> string" where
  "split_sign [] = (False, [])"
| "split_sign (c # cs) =
     (if c = CHR ''-'' then (True, cs)
      else if c = CHR ''+'' then (False, cs)
      else (False, c # cs))"

text \<open>
  \<^verbatim>\<open>int(s)\<close> for a string: white space stripped, an optional sign, a digit part in
  base 10. \<open>None\<close> stands for \<^verbatim>\<open>ValueError\<close>.
\<close>

definition py_int :: "string \<Rightarrow> int option" where
  "py_int s =
     (case split_sign (py_strip s) of
        (neg, body) \<Rightarrow>
          (case digit_part body of
             None \<Rightarrow> None
           | Some ds \<Rightarrow> Some (if neg then - int (decimal ds) else int (decimal ds))))"

text \<open>
  A Python float is modelled by the number it denotes, or by one of the three special
  values. Rounding to 64 binary digits and the sign of zero are not modelled.
\<close>

datatype pyfloat = Finite rat | PosInf | NegInf | NaN

text \<open>\<^verbatim>\<open>x <= 0\<close> and \<^verbatim>\<open>x > 0\<close> on floats: every comparison with NaN is false.\<close>

fun float_le_zero :: "pyfloat \<Rightarrow> bool" where
  "float_le_zero (Finite r) = (r \<le> 0)"
| "float_le_zero NegInf = True"
| "float_le_zero PosInf = False"
| "float_le_zero NaN = False"

fun float_gt_zero :: "pyfloat \<Rightarrow> bool" where
  "float_gt_zero (Finite r) = (0 < r)"
| "float_gt_zero PosInf = True"
| "float_gt_zero NegInf = False"
| "float_gt_zero NaN = False"

text \<open>The part of a string before the first occurrence of a character of \<open>seps\<close>, and
  the part after it (\<open>None\<close> when there is no such character).\<close>

fun cut_at :: "char list \<Rightarrow> string \<Rightarrow> string \<times> string option" where
  "cut_at seps [] = ([], None)"
| "cut_at seps (c # cs) =
     (if c \<in> set seps then ([], Some cs)
      else (case cut_at seps cs of (a, b) \<Rightarrow> (c # a, b)))"

text \<open>The exponent of a float string: an optional sign and a digit part.\<close>

definition exponent :: "string \<Rightarrow> int option" where
  "exponent s =
     (case split_sign s of
        (neg, body) \<Rightarrow>
          (case digit_part body of
             None \<Rightarrow> None
           | Some ds \<Rightarrow> Some (if neg then - int (decimal ds) else int (decimal ds))))"

text \<open>The mantissa: digit parts around an optional point, with at least one digit.
  The result is the digits without the point, and the number of digits after it.\<close>

definition mantissa :: "string \<Rightarrow> (nat list \<times> nat) option" where
  "mantissa s =
     (case cut_at [CHR ''.''] s of
        (ip, None) \<Rightarrow> map_option (\<lambda>ds. (ds, 0)) (digit_part ip)
      | (ip, Some fp) \<Rightarrow>
          (if ip = [] then map_option (\<lambda>fs. (fs, length fs)) (digit_part fp)
           else if fp = [] then map_option (\<lambda>ds. (ds, 0)) (digit_part ip)
           else (case (digit_part ip, digit_part fp) of
                   (Some ds, Some fs) \<Rightarrow> Some (ds @ fs, length fs)
                 | _ \<Rightarrow> None)))"

definition scale10 :: "rat \<Rightarrow> int \<Rightarrow> rat" where
  "scale10 r e = (if 0 \<le> e then r * 10 ^ nat e else r / 10 ^ nat (- e))"

definition finite_literal :: "string \<Rightarrow> rat option" where
  "finite_literal s =
     (case cut_at [CHR ''e'', CHR ''E''] s of
        (m, None) \<Rightarrow>
          map_option (\<lambda>(ds, k). scale10 (of_nat (decimal ds)) (- int k)) (mantissa m)
      | (m, Some e) \<Rightarrow>
          (case (mantissa m, exponent e) of
             (Some (ds, k), Some x) \<Rightarrow> Some (scale10 (of_nat (decimal ds)) (x - int k))
           | _ \<Rightarrow> None))"

text \<open>
  \<^verbatim>\<open>float(s)\<close> for a string: white space stripped, an optional sign, then
  \<^verbatim>\<open>inf\<close>, \<^verbatim>\<open>infinity\<close> or \<^verbatim>\<open>nan\<close> in any case, or a decimal literal with
  an optional exponent. \<open>None\<close> stands for \<^verbatim>\<open>ValueError\<close>.
\<close>

definition py_float :: "string \<Rightarrow> pyfloat option" where
  "py_float s =
     (case split_sign (py_strip s) of
        (neg, body) \<Rightarrow>
          (if py_lower body \<in> set [''inf'', ''infinity''] then Some (if neg then NegInf else PosInf)
           else if py_lower body = ''nan'' then Some NaN
           else map_option (\<lambda>r. Finite (if neg then - r else r)) (finite_literal body)))"

section \<open>Values, mappings and the store\<close>

text \<open>
  A parsed JSON document, as \<^verbatim>\<open>json.load\<close> returns it and \<^verbatim>\<open>json.dump\<close> writes
  it. The entries of an object are in the order of the document.
\<close>

datatype json =
    JNull
  | JBool bool
  | JInt int
  | JFloat pyfloat
  | JStr string
  | JList "json list"
  | JObj "(string \<times> json) list"

text \<open>
  A Python value. A \<^verbatim>\<open>dict\<close> is an object: the value is its address in the store,
  so that two references to one mapping see each other's updates. A list is never
  traversed or changed by this code and is held by value.
\<close>

datatype pyval =
    PNone
  | PBool bool
  | PInt int
  | PFloat pyfloat
  | PStr string
  | PList "json list"
  | PDict nat

type_synonym pydict = "(string \<times> pyval) list"

type_synonym heap = "pydict list"

datatype error = KeyError | TypeError | ValueError | AttributeError | RecursionError

section \<open>Operations of Python on values in the store\<close>

text \<open>
  An address outside the store is no object: the operations treat a reference to it as
  a value that is not a mapping.
\<close>

definition deref :: "heap \<Rightarrow> nat \<Rightarrow> pydict option" where
  "deref h a = (if a < length h then Some (h ! a) else None)"

definition alloc :: "heap \<Rightarrow> pydict \<Rightarrow> heap \<times> nat" where
  "alloc h d = (h @ [d], length h)"

fun starts_with :: "string \<Rightarrow> string \<Rightarrow> bool" where
  "starts_with s [] = True"
| "starts_with [] (p # ps) = False"
| "starts_with (c # cs) (p # ps) = (c = p \<and> starts_with cs ps)"

fun contains_str :: "string \<Rightarrow> string \<Rightarrow> bool" where
  "contains_str [] key = (key = [])"
| "contains_str (c # cs) key = (starts_with (c # cs) key \<or> contains_str cs key)"

text \<open>\<^verbatim>\<open>cur[key]\<close> for a string \<open>key\<close>.\<close>

fun getitem :: "heap \<Rightarrow> pyval \<Rightarrow> string \<Rightarrow> error + pyval" where
  "getitem h (PDict a) key =
     (case deref h a of
        None \<Rightarrow> Inl TypeError
      | Some d \<Rightarrow> (case map_of d key of None \<Rightarrow> Inl KeyError | Some v \<Rightarrow> Inr v))"
| "getitem h v key = Inl TypeError"

text \<open>\<^verbatim>\<open>key in cur\<close> for a string \<open>key\<close>: membership in a mapping or a list, a
  substring test on a string, \<^verbatim>\<open>TypeError\<close> on the other values.\<close>

fun contains :: "heap \<Rightarrow> pyval \<Rightarrow> string \<Rightarrow> error + bool" where
  "contains h (PDict a) key =
     (case deref h a of
        None \<Rightarrow> Inl TypeError
      | Some d \<Rightarrow> Inr (key \<in> fst ` set d))"
| "contains h (PStr s) key = Inr (contains_str s key)"
| "contains h (PList js) key = Inr (JStr key \<in> set js)"
| "contains h v key = Inl TypeError"

text \<open>\<^verbatim>\<open>cur[key] = v\<close>: a new key goes to the end of the mapping.\<close>

fun setitem :: "heap \<Rightarrow> pyval \<Rightarrow> string \<Rightarrow> pyval \<Rightarrow> error + heap" where
  "setitem h (PDict a) key v =
     (case deref h a of
        None \<Rightarrow> Inl TypeError
      | Some d \<Rightarrow> Inr (h[a := AList.update key v d]))"
| "setitem h c key v = Inl TypeError"

text \<open>
  The objects \<^verbatim>\<open>json.load\<close> builds for a document: one new mapping in the store
  for each object of the document, referenced from nowhere else.
\<close>

fun store :: "heap \<Rightarrow> json \<Rightarrow> heap \<times> pyval"
  and store_entries :: "heap \<Rightarrow> (string \<times> json) list \<Rightarrow> heap \<times> pydict" where
  "store h JNull = (h, PNone)"
| "store h (JBool b) = (h, PBool b)"
| "store h (JInt i) = (h, PInt i)"
| "store h (JFloat f) = (h, PFloat f)"
| "store h (JStr s) = (h, PStr s)"
| "store h (JList js) = (h, PList js)"
| "store h (JObj kvs) = (case store_entries h kvs of (h1, d) \<Rightarrow> (h1 @ [d], PDict (length h1)))"
| "store_entries h [] = (h, [])"
| "store_entries h (kv # kvs) =
     (case store h (snd kv) of
        (h1, v) \<Rightarrow> (case store_entries h1 kvs of (h2, d) \<Rightarrow> (h2, (fst kv, v) # d)))"

record config_manager =
  config :: nat
  defaults :: nat

section \<open>Reading and writing by dotted path\<close>

fun descend :: "heap \<Rightarrow> pyval \<Rightarrow> string list \<Rightarrow> error + pyval" where
  "descend h cur [] = Inr cur"
| "descend h cur (key # keys) =
     (case getitem h cur key of
        Inl e \<Rightarrow> Inl e
      | Inr v \<Rightarrow> descend h v keys)"

text \<open>\<^verbatim>\<open>get\<close>: the handler catches \<^verbatim>\<open>KeyError\<close> and \<^verbatim>\<open>TypeError\<close> only.\<close>

definition get :: "heap \<Rightarrow> config_manager \<Rightarrow> string \<Rightarrow> pyval \<Rightarrow> error + pyval" where
  "get h cm path dflt =
     (case descend h (PDict (config cm)) (py_split CHR ''.'' path) of
        Inr v \<Rightarrow> Inr v
      | Inl e \<Rightarrow> (if e = KeyError \<or> e = TypeError then Inr dflt else Inl e))"



section \<open>Deep merge\<close>

text \<open>
  \<^verbatim>\<open>_deep_merge(base, update)\<close>. The only caller passes the document that
  \<^verbatim>\<open>json.load\<close> has just returned, so \<open>update\<close> is a document; its objects enter
  the store when they are assigned into \<open>base\<close>. \<open>merge_items\<close> is the loop over
  \<^verbatim>\<open>update.items()\<close>, which raises \<^verbatim>\<open>AttributeError\<close> when the document is not
  an object.
\<close>

fun merge_items :: "heap \<Rightarrow> nat \<Rightarrow> (string \<times> json) list \<Rightarrow> error + heap" where
  "merge_items h b [] = Inr h"
| "merge_items h b (kv # rest) =
     (case (getitem h (PDict b) (fst kv), snd kv) of
        (Inr (PDict b'), JObj kvs') \<Rightarrow>
          (case merge_items h b' kvs' of
             Inl e \<Rightarrow> Inl e
           | Inr h1 \<Rightarrow> merge_items h1 b rest)
      | _ \<Rightarrow>
          (case store h (snd kv) of
             (h1, v) \<Rightarrow>
               (case setitem h1 (PDict b) (fst kv) v of
                  Inl e \<Rightarrow> Inl e
                | Inr h2 \<Rightarrow> merge_items h2 b rest)))"

definition deep_merge :: "heap \<Rightarrow> nat \<Rightarrow> json \<Rightarrow> error + heap" where
  "deep_merge h b update =
     (case update of
        JObj kvs \<Rightarrow> merge_items h b kvs
      | _ \<Rightarrow> Inl AttributeError)"

section \<open>Coercion of environment values\<close>

text \<open>
  \<^verbatim>\<open>_convert_env_value\<close>. The two \<^verbatim>\<open>try\<close> blocks are kept: \<open>int_attempt\<close> is
  the first one, whose result is \<open>Inl ValueError\<close> when \<^verbatim>\<open>int\<close> raises and which
  falls through (\<open>Inr None\<close>) when the string has a point.
\<close>

definition int_attempt :: "string \<Rightarrow> error + int option" where
  "int_attempt v =
     (if CHR ''.'' \<notin> set v then
        (case py_int v of None \<Rightarrow> Inl ValueError | Some i \<Rightarrow> Inr (Some i))
      else Inr None)"

definition float_attempt :: "string \<Rightarrow> error + pyfloat" where
  "float_attempt v = (case py_float v of None \<Rightarrow> Inl ValueError | Some f \<Rightarrow> Inr f)"

definition convert_env_value :: "string \<Rightarrow> pyval" where
  "convert_env_value v =
     (if py_lower v \<in> set [''true'', ''false''] then PBool (py_lower v = ''true'')
      else (case int_attempt v of
              Inr (Some i) \<Rightarrow> PInt i
            | _ \<Rightarrow>
               (case float_attempt v of
                  Inr f \<Rightarrow> PFloat f
                | Inl _ \<Rightarrow> PStr v)))"

section \<open>Loading\<close>

text \<open>
  What a file holds when it is read: nothing (the path does not exist), something that
  makes reading or parsing raise, or the parsed content. For the structured file the
  content is the document, for the dotenv file its lines.
\<close>

datatype 'a source = Absent | Broken | Loaded 'a

type_synonym environ = "string \<Rightarrow> string option"

definition get_default_config :: "heap \<Rightarrow> heap \<times> nat" where
  "get_default_config h0 =
     (case alloc h0
        [(''testnet'', PBool True),
         (''timeout'', PInt 30),
         (''retry_attempts'', PInt 3),
         (''rate_limit_buffer'', PFloat (Finite (1 / 10)))] of (h1, api) \<Rightarrow>
      case alloc h1
        [(''default_symbol'', PStr ''BTCUSDT''),
         (''max_quantity'', PInt 1000),
         (''min_quantity'', PFloat (Finite (1 / 1000))),
         (''supported_symbols'',
            PList [JStr ''BTCUSDT'', JStr ''ETHUSDT'', JStr ''ADAUSDT'', JStr ''DOTUSDT'']),
         (''default_order_type'', PStr ''LIMIT'')] of (h2, trading) \<Rightarrow>
      case alloc h2
        [(''max_daily_trades'', PInt 50),
         (''max_position_size'', PInt 100),
         (''enable_stop_loss'', PBool True),
         (''stop_loss_percentage'', PFloat (Finite 2)),
         (''take_profit_percentage'', PFloat (Finite 5))] of (h3, risk) \<Rightarrow>
      case alloc h3
        [(''log_level'', PStr ''INFO''),
         (''max_log_size'', PInt (10 * 1024 * 1024)),
         (''log_backup_count'', PInt 5),
         (''enable_trade_logging'', PBool True),
         (''enable_error_logging'', PBool True)] of (h4, logging) \<Rightarrow>
      case alloc h4
        [(''show_confirmations'', PBool True),
         (''auto_refresh_account'', PBool False),
         (''display_precision'', PInt 8)] of (h5, ui) \<Rightarrow>
      alloc h5
        [(''api'', PDict api),
         (''trading'', PDict trading),
         (''risk_management'', PDict risk),
         (''logging'', PDict logging),
         (''ui'', PDict ui)])"

text \<open>\<^verbatim>\<open>_load_from_json\<close>: every exception is caught and logged.\<close>

definition load_from_json :: "heap \<Rightarrow> config_manager \<Rightarrow> json source \<Rightarrow> heap" where
  "load_from_json h cm file =
     (case file of
        Loaded json_config \<Rightarrow>
          (case deep_merge h (config cm) json_config of
             Inr h1 \<Rightarrow> h1
           | Inl e \<Rightarrow> h)
      | _ \<Rightarrow> h)"

text \<open>
  \<^verbatim>\<open>os.environ[key] = value\<close> raises \<^verbatim>\<open>ValueError\<close> for an empty name and for a
  name or a value with a null character.
\<close>

definition putenv :: "environ \<Rightarrow> string \<Rightarrow> string \<Rightarrow> error + environ" where
  "putenv env key v =
     (if key = [] \<or> CHR 0x00 \<in> set key \<or> CHR 0x00 \<in> set v then Inl ValueError
      else Inr (env(key \<mapsto> v)))"

text \<open>The loop of \<^verbatim>\<open>_load_from_env_file\<close> over the lines; an exception ends it, and
  the variables set before stay set.\<close>

fun env_lines :: "environ \<Rightarrow> string list \<Rightarrow> environ" where
  "env_lines env [] = env"
| "env_lines env (l # ls) =
     (let line = py_strip l in
      if line \<noteq> [] \<and> \<not> starts_with line ''#'' \<and> CHR ''='' \<in> set line then
        (case cut_at [CHR ''=''] line of
           (key, rest) \<Rightarrow>
             (case putenv env (py_strip key) (py_strip (case rest of Some v \<Rightarrow> v | None \<Rightarrow> [])) of
                Inl e \<Rightarrow> env
              | Inr env1 \<Rightarrow> env_lines env1 ls))
      else env_lines env ls)"

definition load_from_env_file :: "environ \<Rightarrow> string list source \<Rightarrow> environ" where
  "load_from_env_file env file =
     (case file of
        Loaded ls \<Rightarrow> env_lines env ls
      | _ \<Rightarrow> env)"

definition env_mappings :: "(string \<times> string \<times> string) list" where
  "env_mappings =
     [(''BINANCE_API_KEY'', ''api'', ''key''),
      (''BINANCE_API_SECRET'', ''api'', ''secret''),
      (''BINANCE_TESTNET'', ''api'', ''testnet''),
      (''API_TIMEOUT'', ''api'', ''timeout''),
      (''API_RETRY_ATTEMPTS'', ''api'', ''retry_attempts''),
      (''DEFAULT_SYMBOL'', ''trading'', ''default_symbol''),
      (''MAX_QUANTITY'', ''trading'', ''max_quantity''),
      (''MIN_QUANTITY'', ''trading'', ''min_quantity''),
      (''DEFAULT_ORDER_TYPE'', ''trading'', ''default_order_type''),
      (''MAX_DAILY_TRADES'', ''risk_management'', ''max_daily_trades''),
      (''MAX_POSITION_SIZE'', ''risk_management'', ''max_position_size''),
      (''ENABLE_STOP_LOSS'', ''risk_management'', ''enable_stop_loss''),
      (''STOP_LOSS_PERCENTAGE'', ''risk_management'', ''stop_loss_percentage''),
      (''TAKE_PROFIT_PERCENTAGE'', ''risk_management'', ''take_profit_percentage''),
      (''LOG_LEVEL'', ''logging'', ''log_level''),
      (''MAX_LOG_SIZE'', ''logging'', ''max_log_size''),
      (''LOG_BACKUP_COUNT'', ''logging'', ''log_backup_count''),
      (''SHOW_CONFIRMATIONS'', ''ui'', ''show_confirmations''),
      (''AUTO_REFRESH_ACCOUNT'', ''ui'', ''auto_refresh_account''),
      (''DISPLAY_PRECISION'', ''ui'', ''display_precision'')]"

text \<open>The loop of \<^verbatim>\<open>_load_from_env_vars\<close> over the table. Nothing catches the
  \<^verbatim>\<open>TypeError\<close> of an assignment into a section that is not a mapping.\<close>

fun env_vars_loop :: "environ \<Rightarrow> heap \<Rightarrow> config_manager \<Rightarrow> (string \<times> string \<times> string) list
    \<Rightarrow> error + heap" where
  "env_vars_loop env h cm [] = Inr h"
| "env_vars_loop env h cm ((env_key, section, config_key) # rest) =
     (case env env_key of
        None \<Rightarrow> env_vars_loop env h cm rest
      | Some env_value \<Rightarrow>
          (case contains h (PDict (config cm)) section of
             Inl e \<Rightarrow> Inl e
           | Inr present \<Rightarrow>
               (case (if present then Inr h
                      else (case alloc h [] of
                              (h1, a) \<Rightarrow> setitem h1 (PDict (config cm)) section (PDict a))) of
                  Inl e \<Rightarrow> Inl e
                | Inr h2 \<Rightarrow>
                    (case getitem h2 (PDict (config cm)) section of
                       Inl e \<Rightarrow> Inl e
                     | Inr sec \<Rightarrow>
                         (case setitem h2 sec config_key (convert_env_value env_value) of
                            Inl e \<Rightarrow> Inl e
                          | Inr h3 \<Rightarrow> env_vars_loop env h3 cm rest)))))"

definition load_from_env_vars :: "environ \<Rightarrow> heap \<Rightarrow> config_manager \<Rightarrow> error + heap" where
  "load_from_env_vars env h cm = env_vars_loop env h cm env_mappings"

text \<open>\<^verbatim>\<open>d.copy()\<close> of a mapping: a new mapping with the same entries, which still
  reference the same objects.\<close>

definition dict_copy :: "heap \<Rightarrow> nat \<Rightarrow> error + heap \<times> nat" where
  "dict_copy h a =
     (case deref h a of
        None \<Rightarrow> Inl AttributeError
      | Some d \<Rightarrow> Inr (alloc h d))"

text \<open>
  \<^verbatim>\<open>load_config\<close>, from the two files and the process environment. The result is the
  store, the manager and the environment after the call.
\<close>

definition load_config ::
  "heap \<Rightarrow> config_manager \<Rightarrow> json source \<Rightarrow> string list source \<Rightarrow> environ
    \<Rightarrow> error + heap \<times> config_manager \<times> environ" where
  "load_config h cm config_file env_file env =
     (case dict_copy h (defaults cm) of
        Inl e \<Rightarrow> Inl e
      | Inr (h1, c) \<Rightarrow>
          (let cm1 = cm\<lparr>config := c\<rparr>;
               h2 = load_from_json h1 cm1 config_file;
               env1 = load_from_env_file env env_file
           in case load_from_env_vars env1 h2 cm1 of
                Inl e \<Rightarrow> Inl e
              | Inr h3 \<Rightarrow> Inr (h3, cm1, env1)))"

text \<open>\<^verbatim>\<open>__init__\<close>, in a store \<open>h\<close>.\<close>

definition init :: "heap \<Rightarrow> json source \<Rightarrow> string list source \<Rightarrow> environ
    \<Rightarrow> error + heap \<times> config_manager \<times> environ" where
  "init h config_file env_file env =
     (case alloc h [] of
        (h1, c) \<Rightarrow>
          (case get_default_config h1 of
             (h2, d) \<Rightarrow> load_config h2 \<lparr>config = c, defaults = d\<rparr> config_file env_file env))"

section \<open>Saving\<close>

text \<open>\<^verbatim>\<open>values.items()\<close> and \<^verbatim>\<open>values.copy()\<close>: a mapping has both, a list has
  \<^verbatim>\<open>copy\<close>, the other values raise \<^verbatim>\<open>AttributeError\<close>.\<close>

fun items :: "heap \<Rightarrow> pyval \<Rightarrow> error + pydict" where
  "items h (PDict a) = (case deref h a of None \<Rightarrow> Inl AttributeError | Some d \<Rightarrow> Inr d)"
| "items h v = Inl AttributeError"

fun copy_value :: "heap \<Rightarrow> pyval \<Rightarrow> error + heap \<times> pyval" where
  "copy_value h (PDict a) =
     (case dict_copy h a of Inl e \<Rightarrow> Inl e | Inr (h1, a1) \<Rightarrow> Inr (h1, PDict a1))"
| "copy_value h (PList js) = Inr (h, PList js)"
| "copy_value h v = Inl AttributeError"

text \<open>The loop of \<^verbatim>\<open>_create_safe_config\<close> over \<^verbatim>\<open>self.config.items()\<close>;
  \<open>safe\<close> is the address of \<^verbatim>\<open>safe_config\<close>.\<close>

fun safe_loop :: "heap \<Rightarrow> nat \<Rightarrow> pydict \<Rightarrow> error + heap" where
  "safe_loop h safe [] = Inr h"
| "safe_loop h safe ((section, values) # rest) =
     (if section = ''api'' then
        (case items h values of
           Inl e \<Rightarrow> Inl e
         | Inr d \<Rightarrow>
             (case alloc h (filter (\<lambda>(k, v). k \<notin> set [''key'', ''secret'']) d) of
                (h1, a) \<Rightarrow>
                  (case setitem h1 (PDict safe) section (PDict a) of
                     Inl e \<Rightarrow> Inl e
                   | Inr h2 \<Rightarrow> safe_loop h2 safe rest)))
      else
        (case copy_value h values of
           Inl e \<Rightarrow> Inl e
         | Inr (h1, v) \<Rightarrow>
             (case setitem h1 (PDict safe) section v of
                Inl e \<Rightarrow> Inl e
              | Inr h2 \<Rightarrow> safe_loop h2 safe rest)))"

definition create_safe_config :: "heap \<Rightarrow> config_manager \<Rightarrow> error + heap \<times> nat" where
  "create_safe_config h cm =
     (case alloc h [] of
        (h1, safe) \<Rightarrow>
          (case items h1 (PDict (config cm)) of
             Inl e \<Rightarrow> Inl e
           | Inr d \<Rightarrow>
               (case safe_loop h1 safe d of
                  Inl e \<Rightarrow> Inl e
                | Inr h2 \<Rightarrow> Inr (h2, safe))))"

text \<open>
  \<^verbatim>\<open>json.dump\<close>: the document of a value. \<open>markers\<close> are the mappings being written,
  and meeting one of them again raises \<^verbatim>\<open>ValueError\<close> (circular reference). The
  first argument bounds the nesting, as the recursion limit of the interpreter does;
  \<open>json_dump\<close> gives it the number of mappings of the store, which a nesting without
  repetition cannot exceed. Reading a file back gives the document that was written.
\<close>

fun dump :: "nat \<Rightarrow> heap \<Rightarrow> nat list \<Rightarrow> pyval \<Rightarrow> error + json"
  and dump_entries :: "nat \<Rightarrow> heap \<Rightarrow> nat list \<Rightarrow> pydict \<Rightarrow> error + (string \<times> json) list" where
  "dump n h markers PNone = Inr JNull"
| "dump n h markers (PBool b) = Inr (JBool b)"
| "dump n h markers (PInt i) = Inr (JInt i)"
| "dump n h markers (PFloat f) = Inr (JFloat f)"
| "dump n h markers (PStr s) = Inr (JStr s)"
| "dump n h markers (PList js) = Inr (JList js)"
| "dump 0 h markers (PDict a) = Inl RecursionError"
| "dump (Suc n) h markers (PDict a) =
     (if a \<in> set markers then Inl ValueError
      else (case deref h a of
              None \<Rightarrow> Inl TypeError
            | Some d \<Rightarrow>
                (case dump_entries n h (a # markers) d of
                   Inl e \<Rightarrow> Inl e
                 | Inr kvs \<Rightarrow> Inr (JObj kvs))))"
| "dump_entries n h markers [] = Inr []"
| "dump_entries n h markers (kv # d) =
     (case dump n h markers (snd kv) of
        Inl e \<Rightarrow> Inl e
      | Inr j \<Rightarrow>
          (case dump_entries n h markers d of
             Inl e \<Rightarrow> Inl e
           | Inr kvs \<Rightarrow> Inr ((fst kv, j) # kvs)))"

definition json_dump :: "heap \<Rightarrow> pyval \<Rightarrow> error + json" where
  "json_dump h v = dump (Suc (length h)) h [] v"

text \<open>
  \<^verbatim>\<open>save_config\<close>: the store after the call and what the target file then holds.
  When \<^verbatim>\<open>_create_safe_config\<close> raises the file is not opened and keeps \<open>old\<close>; when
  \<^verbatim>\<open>json.dump\<close> raises the file is left truncated.
\<close>

definition save_config :: "heap \<Rightarrow> config_manager \<Rightarrow> json source \<Rightarrow> heap \<times> json source" where
  "save_config h cm old =
     (case create_safe_config h cm of
        Inl e \<Rightarrow> (h, old)
      | Inr (h1, safe) \<Rightarrow>
          (case json_dump h1 (PDict safe) of
             Inl e \<Rightarrow> (h1, Broken)
           | Inr doc \<Rightarrow> (h1, Loaded doc)))"

section \<open>Accessors and validation\<close>

text \<open>The truth value of a Python value.\<close>

fun truthy :: "heap \<Rightarrow> pyval \<Rightarrow> bool" where
  "truthy h PNone = False"
| "truthy h (PBool b) = b"
| "truthy h (PInt i) = (i \<noteq> 0)"
| "truthy h (PFloat f) = (f \<noteq> Finite 0)"
| "truthy h (PStr s) = (s \<noteq> [])"
| "truthy h (PList js) = (js \<noteq> [])"
| "truthy h (PDict a) = (deref h a \<noteq> Some [])"

definition get_api_credentials :: "heap \<Rightarrow> config_manager \<Rightarrow> error + pyval \<times> pyval" where
  "get_api_credentials h cm =
     (case get h cm ''api.key'' PNone of
        Inl e \<Rightarrow> Inl e
      | Inr api_key \<Rightarrow>
          (case get h cm ''api.secret'' PNone of
             Inl e \<Rightarrow> Inl e
           | Inr api_secret \<Rightarrow>
               (if \<not> truthy h api_key \<or> \<not> truthy h api_secret then Inl ValueError
                else Inr (api_key, api_secret))))"

definition get_default_symbol :: "heap \<Rightarrow> config_manager \<Rightarrow> error + pyval" where
  "get_default_symbol h cm = get h cm ''trading.default_symbol'' (PStr ''BTCUSDT'')"

definition get_risk_limits :: "heap \<Rightarrow> config_manager \<Rightarrow> error + (string \<times> pyval) list" where
  "get_risk_limits h cm =
     (case get h cm ''risk_management.max_daily_trades'' (PInt 50) of
        Inl e \<Rightarrow> Inl e
      | Inr a \<Rightarrow>
     (case get h cm ''risk_management.max_position_size'' (PInt 100) of
        Inl e \<Rightarrow> Inl e
      | Inr b \<Rightarrow>
     (case get h cm ''trading.max_quantity'' (PInt 1000) of
        Inl e \<Rightarrow> Inl e
      | Inr c \<Rightarrow>
     (case get h cm ''trading.min_quantity'' (PFloat (Finite (1 / 1000))) of
        Inl e \<Rightarrow> Inl e
      | Inr d \<Rightarrow>
          Inr [(''max_daily_trades'', a), (''max_position_size'', b),
               (''max_quantity'', c), (''min_quantity'', d)]))))"

text \<open>\<^verbatim>\<open>isinstance(value, (int, float))\<close>: a \<^verbatim>\<open>bool\<close> is an \<^verbatim>\<open>int\<close>.\<close>

fun is_number :: "pyval \<Rightarrow> bool" where
  "is_number (PInt i) = True"
| "is_number (PFloat f) = True"
| "is_number (PBool b) = True"
| "is_number v = False"

text \<open>\<^verbatim>\<open>value <= 0\<close> on a number; \<^verbatim>\<open>True\<close> counts as 1 and \<^verbatim>\<open>False\<close> as 0.\<close>

fun le_zero :: "pyval \<Rightarrow> bool" where
  "le_zero (PInt i) = (i \<le> 0)"
| "le_zero (PFloat f) = float_le_zero f"
| "le_zero (PBool b) = (\<not> b)"
| "le_zero v = False"

text \<open>What \<^verbatim>\<open>validate_config\<close> writes to the log when it returns false.\<close>

datatype report =
    InvalidLimit string pyval
  | InvalidSymbol pyval
  | InvalidLogLevel pyval
  | ValidationFailed
  | UnexpectedError

fun check_limits :: "(string \<times> pyval) list \<Rightarrow> report option" where
  "check_limits [] = None"
| "check_limits ((key, v) # rest) =
     (if \<not> is_number v \<or> le_zero v then Some (InvalidLimit key v) else check_limits rest)"

definition log_levels :: "string list" where
  "log_levels = [''DEBUG'', ''INFO'', ''WARNING'', ''ERROR'', ''CRITICAL'']"

text \<open>\<^verbatim>\<open>len(v) < 3\<close> after \<^verbatim>\<open>isinstance(v, str)\<close>.\<close>

fun bad_symbol :: "pyval \<Rightarrow> bool" where
  "bad_symbol (PStr s) = (length s < 3)"
| "bad_symbol v = True"

text \<open>\<^verbatim>\<open>log_level.upper()\<close>: only a string has the method.\<close>

fun upper_of :: "pyval \<Rightarrow> error + string" where
  "upper_of (PStr s) = Inr (py_upper s)"
| "upper_of v = Inl AttributeError"

text \<open>The body of the \<^verbatim>\<open>try\<close> of \<^verbatim>\<open>validate_config\<close>: an exception, a report with
  the result false, or no report with the result true.\<close>

definition validate_body :: "heap \<Rightarrow> config_manager \<Rightarrow> error + report option" where
  "validate_body h cm =
     (case get_api_credentials h cm of
        Inl e \<Rightarrow> Inl e
      | Inr creds \<Rightarrow>
     (case get_risk_limits h cm of
        Inl e \<Rightarrow> Inl e
      | Inr limits \<Rightarrow>
     (case check_limits limits of
        Some r \<Rightarrow> Inr (Some r)
      | None \<Rightarrow>
     (case get_default_symbol h cm of
        Inl e \<Rightarrow> Inl e
      | Inr default_symbol \<Rightarrow>
          (if bad_symbol default_symbol then Inr (Some (InvalidSymbol default_symbol))
           else
     (case get h cm ''logging.log_level'' (PStr ''INFO'') of
        Inl e \<Rightarrow> Inl e
      | Inr log_level \<Rightarrow>
     (case upper_of log_level of
        Inl e \<Rightarrow> Inl e
      | Inr u \<Rightarrow>
          (if u \<notin> set log_levels then Inr (Some (InvalidLogLevel log_level))
           else Inr None))))))))"

definition validate_config :: "heap \<Rightarrow> config_manager \<Rightarrow> bool \<times> report option" where
  "validate_config h cm =
     (case validate_body h cm of
        Inr None \<Rightarrow> (True, None)
      | Inr (Some r) \<Rightarrow> (False, Some r)
      | Inl e \<Rightarrow> (if e = ValueError then (False, Some ValidationFailed)
                  else (False, Some UnexpectedError)))"

section \<open>Definitions used by the statements\<close>


text \<open>The value reached from \<open>cur\<close> by descending key by key through mappings, in the
  words of the specification: \<open>None\<close> when a segment is missing or a value on the way
  is not a mapping.\<close>

fun resolve :: "heap \<Rightarrow> pyval \<Rightarrow> string list \<Rightarrow> pyval option" where
  "resolve h cur [] = Some cur"
| "resolve h cur (key # keys) =
     (case cur of
        PDict a \<Rightarrow>
          (case deref h a of
             Some d \<Rightarrow> (case map_of d key of Some v \<Rightarrow> resolve h v keys | None \<Rightarrow> None)
           | None \<Rightarrow> None)
      | _ \<Rightarrow> None)"

text \<open>The store and the manager that \<^verbatim>\<open>ConfigManager()\<close> leaves when there is no
  structured file, no dotenv file and an empty environment.\<close>

definition fresh_heap :: heap where
  "fresh_heap = (case init [] Absent Absent Map.empty of Inr (h, cm, env) \<Rightarrow> h | Inl e \<Rightarrow> [])"

definition fresh_manager :: config_manager where
  "fresh_manager = \<lparr>config = 7, defaults = 6\<rparr>"

text \<open>The store and the manager that \<^verbatim>\<open>ConfigManager()\<close> leaves for given files in
  an empty environment and an empty store.\<close>

definition state_after :: "json source \<Rightarrow> string list source \<Rightarrow> heap \<times> config_manager" where
  "state_after config_file env_file =
     (case init [] config_file env_file Map.empty of
        Inr (h, cm, env) \<Rightarrow> (h, cm)
      | Inl e \<Rightarrow> ([], \<lparr>config = 0, defaults = 0\<rparr>))"

text \<open>What \<^verbatim>\<open>get\<close> returns.\<close>

definition lookup :: "heap \<Rightarrow> config_manager \<Rightarrow> string \<Rightarrow> pyval \<Rightarrow> pyval" where
  "lookup h cm path dflt =
     (case resolve h (PDict (config cm)) (py_split CHR ''.'' path) of
        Some v \<Rightarrow> v
      | None \<Rightarrow> dflt)"



text \<open>The checks of \<^verbatim>\<open>validate\<close> in the words of the specification: the credentials
  are present and not empty, a limit is a number strictly greater than zero.\<close>

definition credentials_present :: "heap \<Rightarrow> config_manager \<Rightarrow> bool" where
  "credentials_present h cm =
     (truthy h (lookup h cm ''api.key'' PNone) \<and> truthy h (lookup h cm ''api.secret'' PNone))"

fun positive_number :: "pyval \<Rightarrow> bool" where
  "positive_number (PInt i) = (0 < i)"
| "positive_number (PFloat f) = float_gt_zero f"
| "positive_number (PBool b) = b"
| "positive_number v = False"

definition limit_values :: "heap \<Rightarrow> config_manager \<Rightarrow> (string \<times> pyval) list" where
  "limit_values h cm =
     [(''max_daily_trades'', lookup h cm ''risk_management.max_daily_trades'' (PInt 50)),
      (''max_position_size'', lookup h cm ''risk_management.max_position_size'' (PInt 100)),
      (''max_quantity'', lookup h cm ''trading.max_quantity'' (PInt 1000)),
      (''min_quantity'', lookup h cm ''trading.min_quantity'' (PFloat (Finite (1 / 1000))))]"

text \<open>Two configurations with credentials from a dotenv file: one whose structured file
  sets \<^verbatim>\<open>logging.log_level\<close> to the number 5, one whose dotenv file has
  \<^verbatim>\<open>MAX_QUANTITY=nan\<close>.\<close>

definition level_number_state :: "heap \<times> config_manager" where
  "level_number_state =
     state_after (Loaded (JObj [(''logging'', JObj [(''log_level'', JInt 5)])]))
       (Loaded [''BINANCE_API_KEY=k'', ''BINANCE_API_SECRET=s''])"

definition nan_limit_state :: "heap \<times> config_manager" where
  "nan_limit_state =
     state_after Absent
       (Loaded [''BINANCE_API_KEY=k'', ''BINANCE_API_SECRET=s'', ''MAX_QUANTITY=nan''])"

text \<open>The third and fourth check of \<^verbatim>\<open>validate\<close> in the words of the specification.\<close>

fun symbol_ok :: "pyval \<Rightarrow> bool" where
  "symbol_ok (PStr s) = (3 \<le> length s)"
| "symbol_ok v = False"

fun level_ok :: "pyval \<Rightarrow> bool" where
  "level_ok (PStr s) = (py_upper s \<in> set log_levels)"
| "level_ok v = False"

text \<open>In the store, the configuration holds \<open>cv\<close> at \<open>section.key\<close>.\<close>

definition holds_at :: "heap \<Rightarrow> nat \<Rightarrow> string \<Rightarrow> string \<Rightarrow> pyval \<Rightarrow> bool" where
  "holds_at h c sec ck cv =
     (\<exists>a. c < length h \<and> map_of (h ! c) sec = Some (PDict a) \<and> a < length h
          \<and> map_of (h ! a) ck = Some cv)"

text \<open>The safe configuration: the entries of a section without the credentials, the
  copy made for an entry of the configuration, and the outer mapping, whose sections
  are the mappings at the addresses from \<open>n\<close> on. \<open>sections_below n d\<close>: every value of
  \<open>d\<close> is a mapping at an address below \<open>n\<close>.\<close>

definition strip_credentials :: "pydict \<Rightarrow> pydict" where
  "strip_credentials d = filter (\<lambda>(k, v). k \<notin> set [''key'', ''secret'']) d"

fun section_copy :: "heap \<Rightarrow> string \<times> pyval \<Rightarrow> pydict" where
  "section_copy h (sec, PDict a) = (if sec = ''api'' then strip_credentials (h ! a) else h ! a)"
| "section_copy h (sec, v) = []"

definition sections_below :: "nat \<Rightarrow> pydict \<Rightarrow> bool" where
  "sections_below n d = list_all (\<lambda>(sec, v). case v of PDict a \<Rightarrow> a < n | _ \<Rightarrow> False) d"

definition safe_top :: "nat \<Rightarrow> pydict \<Rightarrow> pydict" where
  "safe_top n d = map (\<lambda>(i, (sec, v)). (sec, PDict i)) (enumerate n d)"

text \<open>
  \<open>tree_at h v F j\<close>: in the store \<open>h\<close> the value \<open>v\<close> is the root of a tree that holds
  the document \<open>j\<close>; its mappings are at the addresses \<open>F\<close>, and no mapping is reached
  twice. \<open>tree_entries\<close> is the same for the entries of a mapping.
\<close>

inductive tree_at :: "heap \<Rightarrow> pyval \<Rightarrow> nat set \<Rightarrow> json \<Rightarrow> bool"
  and tree_entries :: "heap \<Rightarrow> pydict \<Rightarrow> nat set \<Rightarrow> (string \<times> json) list \<Rightarrow> bool" where
  t_none: "tree_at h PNone {} JNull"
| t_bool: "tree_at h (PBool b) {} (JBool b)"
| t_int: "tree_at h (PInt i) {} (JInt i)"
| t_float: "tree_at h (PFloat f) {} (JFloat f)"
| t_str: "tree_at h (PStr s) {} (JStr s)"
| t_list: "tree_at h (PList js) {} (JList js)"
| t_dict: "a < length h \<Longrightarrow> tree_entries h (h ! a) F kvs \<Longrightarrow> a \<notin> F
           \<Longrightarrow> tree_at h (PDict a) (insert a F) (JObj kvs)"
| e_nil: "tree_entries h [] {} []"
| e_cons: "tree_at h v F1 j \<Longrightarrow> tree_entries h d F2 kvs \<Longrightarrow> F1 \<inter> F2 = {}
           \<Longrightarrow> tree_entries h ((k, v) # d) (F1 \<union> F2) ((k, j) # kvs)"

text \<open>
  Deep merge in the words of the specification, on documents: for each key of the
  incoming document, if both the existing and the incoming value are mappings, recurse;
  otherwise the incoming value replaces the existing one.
\<close>

fun merge_spec :: "(string \<times> json) list \<Rightarrow> (string \<times> json) list \<Rightarrow> (string \<times> json) list" where
  "merge_spec base [] = base"
| "merge_spec base (kv # rest) =
     merge_spec
       (AList.update (fst kv)
          (case (map_of base (fst kv), snd kv) of
             (Some (JObj b'), JObj u') \<Rightarrow> JObj (merge_spec b' u')
           | _ \<Rightarrow> snd kv)
          base)
       rest"

text \<open>The number of entries of a document, nested ones included.\<close>

fun jsize :: "json \<Rightarrow> nat" and jsize_entries :: "(string \<times> json) list \<Rightarrow> nat" where
  "jsize (JObj kvs) = Suc (jsize_entries kvs)"
| "jsize JNull = 0"
| "jsize (JBool b) = 0"
| "jsize (JInt i) = 0"
| "jsize (JFloat f) = 0"
| "jsize (JStr s) = 0"
| "jsize (JList js) = 0"
| "jsize_entries [] = 0"
| "jsize_entries (kv # kvs) = Suc (jsize (snd kv) + jsize_entries kvs)"

text \<open>
  The data model of the specification: a configuration is a mapping from section names
  to mappings whose values are not mappings. \<open>scalar_json\<close> is the document of such a
  value (it is not used on a mapping), \<open>sections_doc\<close> the document of the sections.
\<close>

fun is_mapping :: "pyval \<Rightarrow> bool" where
  "is_mapping (PDict a) = True"
| "is_mapping v = False"

fun scalar_json :: "pyval \<Rightarrow> json" where
  "scalar_json PNone = JNull"
| "scalar_json (PBool b) = JBool b"
| "scalar_json (PInt i) = JInt i"
| "scalar_json (PFloat f) = JFloat f"
| "scalar_json (PStr s) = JStr s"
| "scalar_json (PList js) = JList js"
| "scalar_json (PDict a) = JNull"

definition flat :: "pydict \<Rightarrow> bool" where
  "flat d = list_all (\<lambda>kv. \<not> is_mapping (snd kv)) d"

definition flat_doc :: "pydict \<Rightarrow> (string \<times> json) list" where
  "flat_doc d = map (\<lambda>kv. (fst kv, scalar_json (snd kv))) d"

definition two_level :: "heap \<Rightarrow> pydict \<Rightarrow> bool" where
  "two_level h d =
     list_all (\<lambda>kv. case snd kv of PDict a \<Rightarrow> a < length h \<and> flat (h ! a) | _ \<Rightarrow> False) d"

definition sections_doc :: "heap \<Rightarrow> pydict \<Rightarrow> (string \<times> json) list" where
  "sections_doc h d =
     map (\<lambda>kv. (fst kv, JObj (flat_doc (case snd kv of PDict a \<Rightarrow> h ! a | _ \<Rightarrow> [])))) d"

definition dict_addrs :: "pydict \<Rightarrow> nat set" where
  "dict_addrs d = {a. PDict a \<in> snd ` set d}"

text \<open>A valid configuration: it follows the data model, and the keys of each mapping
  are distinct, as the keys of a \<^verbatim>\<open>dict\<close> are. \<open>safe_doc\<close> is the document that
  \<^verbatim>\<open>save_config\<close> writes for it.\<close>

definition valid_tree :: "heap \<Rightarrow> config_manager \<Rightarrow> bool" where
  "valid_tree h cm =
     (case deref h (config cm) of
        None \<Rightarrow> False
      | Some d \<Rightarrow>
          two_level h d \<and> distinct (map fst d)
          \<and> list_all (\<lambda>kv. case snd kv of PDict a \<Rightarrow> distinct (map fst (h ! a)) | _ \<Rightarrow> False) d)"

definition safe_doc :: "heap \<Rightarrow> pydict \<Rightarrow> (string \<times> json) list" where
  "safe_doc h d = map (\<lambda>kv. (fst kv, JObj (flat_doc (section_copy h kv)))) d"

section \<open>Properties\<close>

subsection \<open>Coercion\<close>




subsection \<open>Lookup by path\<close>

lemma descend_resolve_Some: "resolve h cur keys = Some v \<Longrightarrow> descend h cur keys = Inr v"
proof (induction keys arbitrary: cur)
  case Nil
  then show ?case by simp
next
  case (Cons key keys)
  then show ?case
    by (cases cur) (auto split: option.splits)
qed

lemma descend_resolve_None:
  "resolve h cur keys = None \<Longrightarrow> descend h cur keys = Inl KeyError \<or> descend h cur keys = Inl TypeError"
proof (induction keys arbitrary: cur)
  case Nil
  then show ?case by simp
next
  case (Cons key keys)
  then show ?case
    by (cases cur) (auto split: option.splits)
qed

lemma get_resolve:
  "get h cm path dflt =
     Inr (case resolve h (PDict (config cm)) (py_split CHR ''.'' path) of
            Some v \<Rightarrow> v
          | None \<Rightarrow> dflt)"
proof (cases "resolve h (PDict (config cm)) (py_split CHR ''.'' path)")
  case None
  from descend_resolve_None [OF this] show ?thesis
    using None by (auto simp: get_def)
next
  case (Some v)
  from descend_resolve_Some [OF this] show ?thesis
    using Some by (simp add: get_def)
qed

lemma fresh_heap_eq:
  "init [] Absent Absent Map.empty = Inr (fresh_heap, fresh_manager, Map.empty)"
  by (simp add: fresh_heap_def fresh_manager_def init_def alloc_def get_default_config_def
      load_config_def dict_copy_def deref_def load_from_json_def load_from_env_file_def
      load_from_env_vars_def env_mappings_def)

text \<open>
  Claim C7. \<^verbatim>\<open>get\<close> is total: for every path string and every fallback it returns
  a value and raises nothing. The value is the one reached by splitting the path at the
  points and descending key by key when every segment resolves through mappings, and
  the fallback otherwise; on the fresh configuration \<^verbatim>\<open>nonexistent.path\<close>, the empty
  path and a path through the scalar \<^verbatim>\<open>api.timeout\<close> give the fallback.
\<close>

theorem get_total:
  "(\<forall>h cm path dflt.
      get h cm path dflt =
        Inr (case resolve h (PDict (config cm)) (py_split CHR ''.'' path) of
               Some v \<Rightarrow> v
             | None \<Rightarrow> dflt))
   \<and> get fresh_heap fresh_manager ''nonexistent.path'' (PStr ''fallback'') = Inr (PStr ''fallback'')
   \<and> get fresh_heap fresh_manager [] (PStr ''fallback'') = Inr (PStr ''fallback'')
   \<and> get fresh_heap fresh_manager ''api.timeout.x'' (PStr ''fallback'') = Inr (PStr ''fallback'')
   \<and> get fresh_heap fresh_manager ''api.timeout'' (PStr ''fallback'') = Inr (PInt 30)"
proof -
  have "get fresh_heap fresh_manager ''nonexistent.path'' (PStr ''fallback'') = Inr (PStr ''fallback'')"
    by code_simp
  moreover have "get fresh_heap fresh_manager [] (PStr ''fallback'') = Inr (PStr ''fallback'')"
    by code_simp
  moreover have "get fresh_heap fresh_manager ''api.timeout.x'' (PStr ''fallback'') = Inr (PStr ''fallback'')"
    by code_simp
  moreover have "get fresh_heap fresh_manager ''api.timeout'' (PStr ''fallback'') = Inr (PInt 30)"
    by code_simp
  ultimately show ?thesis
    using get_resolve by blast
qed

subsection \<open>Assignment by path\<close>

lemma setitem_Inr:
  "setitem h cur k v = Inr h2 \<longleftrightarrow>
     (\<exists>a. cur = PDict a \<and> a < length h \<and> h2 = h[a := AList.update k v (h ! a)])"
  by (cases cur) (auto simp: deref_def)












subsection \<open>The defaults after loading\<close>

text \<open>
  Claim C4. \<^verbatim>\<open>load_config\<close> should leave the stored defaults equal to the built-in
  defaults. The code starts from \<^verbatim>\<open>self.defaults.copy()\<close>, which copies the outer
  mapping only: the sections are shared, and merging a structured file with
  \<^verbatim>\<open>{"trading": {"max_quantity": 5}}\<close> changes \<^verbatim>\<open>trading.max_quantity\<close> of the
  defaults from 1000 to 5.
\<close>

theorem load_changes_defaults:
  "(case get_default_config [] of
      (h, d) \<Rightarrow> descend h (PDict d) [''trading'', ''max_quantity'']) = Inr (PInt 1000)
   \<and> (case init [] (Loaded (JObj [(''trading'', JObj [(''max_quantity'', JInt 5)])])) Absent Map.empty of
        Inr (h, cm, env) \<Rightarrow> descend h (PDict (defaults cm)) [''trading'', ''max_quantity'']
      | Inl e \<Rightarrow> Inl e) = Inr (PInt 5)"
  by code_simp

subsection \<open>Validation\<close>

lemma get_lookup: "get h cm path dflt = Inr (lookup h cm path dflt)"
  by (simp add: get_resolve lookup_def)

lemma get_api_credentials_eq:
  "get_api_credentials h cm =
     (if credentials_present h cm
      then Inr (lookup h cm ''api.key'' PNone, lookup h cm ''api.secret'' PNone)
      else Inl ValueError)"
  by (auto simp: get_api_credentials_def get_lookup credentials_present_def)

lemma get_risk_limits_eq: "get_risk_limits h cm = Inr (limit_values h cm)"
  by (simp add: get_risk_limits_def get_lookup limit_values_def)

lemma validate_body_eq:
  "validate_body h cm =
     (if \<not> credentials_present h cm then Inl ValueError
      else case check_limits (limit_values h cm) of
             Some r \<Rightarrow> Inr (Some r)
           | None \<Rightarrow>
               (if bad_symbol (lookup h cm ''trading.default_symbol'' (PStr ''BTCUSDT''))
                then Inr (Some (InvalidSymbol (lookup h cm ''trading.default_symbol'' (PStr ''BTCUSDT''))))
                else case upper_of (lookup h cm ''logging.log_level'' (PStr ''INFO'')) of
                       Inl e \<Rightarrow> Inl e
                     | Inr u \<Rightarrow>
                         (if u \<notin> set log_levels
                          then Inr (Some (InvalidLogLevel (lookup h cm ''logging.log_level'' (PStr ''INFO''))))
                          else Inr None)))"
  by (simp add: validate_body_def get_api_credentials_eq get_risk_limits_eq
      get_default_symbol_def get_lookup split: option.splits sum.splits)

lemma validate_raise_false:
  "validate_body h cm = Inl e \<Longrightarrow> fst (validate_config h cm) = False"
  by (simp add: validate_config_def)

lemma validate_level_number:
  "lookup h cm ''logging.log_level'' (PStr ''INFO'') = PInt n \<Longrightarrow> fst (validate_config h cm) = False"
  by (simp add: validate_config_def validate_body_eq split: option.splits)

lemma check_limits_bad:
  "(k, v) \<in> set ls \<Longrightarrow> \<not> is_number v \<or> le_zero v \<Longrightarrow> check_limits ls \<noteq> None"
  by (induction ls) auto

lemma validate_limit_string:
  assumes "lookup h cm ''trading.max_quantity'' (PInt 1000) = PStr s"
  shows "fst (validate_config h cm) = False"
proof -
  have "check_limits (limit_values h cm) \<noteq> None"
    by (rule check_limits_bad [where k = "''max_quantity''" and v = "PStr s"])
       (simp_all add: limit_values_def assms)
  then show ?thesis
    by (auto simp: validate_config_def validate_body_eq split: option.splits)
qed

lemma validate_cases:
  "validate_config h cm = (True, None) \<or> (\<exists>r. validate_config h cm = (False, Some r))"
  by (auto simp: validate_config_def split: sum.splits option.splits)

text \<open>
  Claim C10. \<^verbatim>\<open>validate_config\<close> raises for no configuration: it returns true with
  nothing logged or false with a report. Whenever the body of its \<^verbatim>\<open>try\<close> raises, the
  result is false; so it is when \<^verbatim>\<open>logging.log_level\<close> holds a number, for which
  \<^verbatim>\<open>upper\<close> does not exist, and when the limit \<^verbatim>\<open>trading.max_quantity\<close> holds a
  string.
\<close>

theorem validate_never_raises:
  "(validate_config h cm = (True, None) \<or> (\<exists>r. validate_config h cm = (False, Some r)))
   \<and> (\<forall>e. validate_body h cm = Inl e \<longrightarrow> fst (validate_config h cm) = False)
   \<and> (\<forall>n. lookup h cm ''logging.log_level'' (PStr ''INFO'') = PInt n
          \<longrightarrow> fst (validate_config h cm) = False)
   \<and> (\<forall>s. lookup h cm ''trading.max_quantity'' (PInt 1000) = PStr s
          \<longrightarrow> fst (validate_config h cm) = False)"
  using validate_cases validate_raise_false validate_level_number validate_limit_string
  by blast

theorem validate_never_raises_witness:
  "validate_body (fst level_number_state) (snd level_number_state) = Inl AttributeError
   \<and> fst (validate_config (fst level_number_state) (snd level_number_state)) = False"
proof -
  have "validate_body (fst level_number_state) (snd level_number_state) = Inl AttributeError"
    by code_simp
  with validate_never_raises [of "fst level_number_state" "snd level_number_state"]
  show ?thesis by blast
qed

lemma positive_not_rejected: "positive_number v \<Longrightarrow> is_number v \<and> \<not> le_zero v"
proof (cases v)
  case (PFloat f)
  assume "positive_number v"
  with PFloat show ?thesis by (cases f) auto
qed auto

lemma check_limits_pass:
  "list_all positive_number (map snd ls) \<Longrightarrow> check_limits ls = None"
  by (induction ls) (auto dest: positive_not_rejected)

text \<open>What holds of the claim on validation: the result is true when the four checks
  pass, and false in each of the four cases the specification lists.\<close>

lemma validate_true_when_checks_pass:
  assumes "credentials_present h cm"
    and "list_all positive_number (map snd (limit_values h cm))"
    and "symbol_ok (lookup h cm ''trading.default_symbol'' (PStr ''BTCUSDT''))"
    and "level_ok (lookup h cm ''logging.log_level'' (PStr ''INFO''))"
  shows "validate_config h cm = (True, None)"
proof -
  obtain s where s: "lookup h cm ''trading.default_symbol'' (PStr ''BTCUSDT'') = PStr s" "3 \<le> length s"
    using assms(3) by (cases "lookup h cm ''trading.default_symbol'' (PStr ''BTCUSDT'')") auto
  obtain l where l: "lookup h cm ''logging.log_level'' (PStr ''INFO'') = PStr l"
      "py_upper l \<in> set log_levels"
    using assms(4) by (cases "lookup h cm ''logging.log_level'' (PStr ''INFO'')") auto
  show ?thesis
    using assms(1) check_limits_pass [OF assms(2)] s l
    by (simp add: validate_config_def validate_body_eq)
qed

lemma validate_false_cases:
  "lookup h cm ''api.key'' PNone = PStr [] \<Longrightarrow> validate_config h cm = (False, Some ValidationFailed)"
  "lookup h cm ''trading.default_symbol'' (PStr ''BTCUSDT'') = PStr [c1, c2]
     \<Longrightarrow> fst (validate_config h cm) = False"
  "lookup h cm ''risk_management.max_daily_trades'' (PInt 50) = PInt i \<Longrightarrow> i \<le> 0
     \<Longrightarrow> fst (validate_config h cm) = False"
  "lookup h cm ''logging.log_level'' (PStr ''INFO'') = PStr ''VERBOSE''
     \<Longrightarrow> fst (validate_config h cm) = False"
proof -
  show "lookup h cm ''api.key'' PNone = PStr [] \<Longrightarrow> validate_config h cm = (False, Some ValidationFailed)"
    by (simp add: validate_config_def validate_body_eq credentials_present_def)
  show "lookup h cm ''trading.default_symbol'' (PStr ''BTCUSDT'') = PStr [c1, c2]
     \<Longrightarrow> fst (validate_config h cm) = False"
    by (simp add: validate_config_def validate_body_eq split: option.splits)
  show "lookup h cm ''risk_management.max_daily_trades'' (PInt 50) = PInt i \<Longrightarrow> i \<le> 0
     \<Longrightarrow> fst (validate_config h cm) = False"
    by (simp add: validate_config_def validate_body_eq limit_values_def split: option.splits)
  have "py_upper ''VERBOSE'' \<notin> set log_levels"
    by code_simp
  then show "lookup h cm ''logging.log_level'' (PStr ''INFO'') = PStr ''VERBOSE''
     \<Longrightarrow> fst (validate_config h cm) = False"
    by (simp add: validate_config_def validate_body_eq split: option.splits)
qed

text \<open>
  Claim C6. The second check of \<^verbatim>\<open>validate\<close> should pass only limits that are numbers
  strictly greater than zero. The code rejects a limit by \<^verbatim>\<open>value <= 0\<close>, which is
  false for the float NaN: with \<^verbatim>\<open>MAX_QUANTITY=nan\<close> in the environment the limit
  \<^verbatim>\<open>trading.max_quantity\<close> is NaN, not a positive number, and \<^verbatim>\<open>validate_config\<close>
  returns true.
\<close>

theorem validate_accepts_nan_limit:
  "(case nan_limit_state of
      (h, cm) \<Rightarrow>
        (lookup h cm ''trading.max_quantity'' (PInt 1000),
         positive_number (lookup h cm ''trading.max_quantity'' (PInt 1000)),
         validate_config h cm))
   = (PFloat NaN, False, (True, None))"
  by code_simp

subsection \<open>The environment pass\<close>

lemma holds_at_alloc: "holds_at h c sec ck cv \<Longrightarrow> holds_at (h @ [d]) c sec ck cv"
  by (auto simp: holds_at_def nth_append)

lemma holds_at_setitem:
  assumes "holds_at h c sec ck cv" "setitem h x k v = Inr h'" "k \<noteq> ck" "k \<noteq> sec"
  shows "holds_at h' c sec ck cv"
proof -
  from assms(2) obtain b where b: "x = PDict b" "b < length h" "h' = h[b := AList.update k v (h ! b)]"
    by (auto simp: setitem_Inr)
  from assms(1) obtain a where a: "c < length h" "map_of (h ! c) sec = Some (PDict a)" "a < length h"
    "map_of (h ! a) ck = Some cv"
    by (auto simp: holds_at_def)
  have "map_of (h' ! c) sec = Some (PDict a)"
    using a b assms(4) by (cases "b = c") (auto simp: update_conv')
  moreover have "map_of (h' ! a) ck = Some cv"
    using a b assms(3) by (cases "b = a") (auto simp: update_conv')
  ultimately show ?thesis
    using a b by (auto simp: holds_at_def)
qed

lemma env_loop_keeps:
  "env_vars_loop env h cm tbl = Inr h' \<Longrightarrow> holds_at h (config cm) sec ck cv \<Longrightarrow>
   (\<forall>(ek', sec', ck') \<in> set tbl. ck' \<noteq> ck \<and> ck' \<noteq> sec \<and> sec' \<noteq> ck) \<Longrightarrow>
   holds_at h' (config cm) sec ck cv"
proof (induction tbl arbitrary: h)
  case Nil
  then show ?case by simp
next
  case (Cons e tbl)
  obtain ek' sec' ck' where e: "e = (ek', sec', ck')" by (cases e) auto
  have ne: "ck' \<noteq> ck" "ck' \<noteq> sec" "sec' \<noteq> ck"
    using Cons.prems(3) e by auto
  have rest: "\<forall>(ek', sec', ck') \<in> set tbl. ck' \<noteq> ck \<and> ck' \<noteq> sec \<and> sec' \<noteq> ck"
    using Cons.prems(3) by auto
  show ?case
  proof (cases "env ek'")
    case None
    then show ?thesis
      using Cons.prems(1,2) Cons.IH rest e by simp
  next
    case (Some ev)
    from Cons.prems(2) obtain a where a: "config cm < length h"
      "map_of (h ! config cm) sec = Some (PDict a)"
      by (auto simp: holds_at_def)
    from Cons.prems(1) Some e obtain h2 secv h3 where
      h2: "(if sec' \<in> fst ` set (h ! config cm) then Inr h
            else setitem (h @ [[]]) (PDict (config cm)) sec' (PDict (length h))) = Inr h2"
      and secv: "getitem h2 (PDict (config cm)) sec' = Inr secv"
      and h3: "setitem h2 secv ck' (convert_env_value ev) = Inr h3"
      and loop: "env_vars_loop env h3 cm tbl = Inr h'"
      using a by (auto simp: deref_def alloc_def split: sum.splits if_splits)
    have "holds_at h2 (config cm) sec ck cv"
    proof (cases "sec' \<in> fst ` set (h ! config cm)")
      case True
      then show ?thesis using h2 Cons.prems(2) by simp
    next
      case False
      then have "sec' \<noteq> sec"
        using a(2) map_of_eq_None_iff [of "h ! config cm" sec] by auto
      with False h2 holds_at_setitem [OF holds_at_alloc [OF Cons.prems(2)], of "[]" "PDict (config cm)" sec' "PDict (length h)" h2]
      show ?thesis using ne by simp
    qed
    then have "holds_at h3 (config cm) sec ck cv"
      using holds_at_setitem [OF _ h3] ne by blast
    then show ?thesis
      using Cons.IH [OF loop _ rest] by simp
  qed
qed

lemma env_loop_step:
  assumes "env ek = Some ev" "env_vars_loop env h cm ((ek, sec, ck) # tbl) = Inr h'"
  shows "\<exists>h2 a. config cm < length h2 \<and> map_of (h2 ! config cm) sec = Some (PDict a) \<and> a < length h2
           \<and> env_vars_loop env (h2[a := AList.update ck (convert_env_value ev) (h2 ! a)]) cm tbl = Inr h'"
proof -
  from assms obtain h2 secv h3 where
    secv: "getitem h2 (PDict (config cm)) sec = Inr secv"
    and h3: "setitem h2 secv ck (convert_env_value ev) = Inr h3"
    and loop: "env_vars_loop env h3 cm tbl = Inr h'"
    by (auto split: sum.splits)
  from h3 obtain a where a: "secv = PDict a" "a < length h2"
    "h3 = h2[a := AList.update ck (convert_env_value ev) (h2 ! a)]"
    by (auto simp: setitem_Inr)
  from secv a have "config cm < length h2" "map_of (h2 ! config cm) sec = Some (PDict a)"
    by (auto simp: deref_def split: if_splits option.splits)
  with a loop show ?thesis by blast
qed

lemma env_loop_next:
  assumes "env_vars_loop env h cm ((ek, sec, ck) # tbl) = Inr h'"
  shows "\<exists>h3. env_vars_loop env h3 cm tbl = Inr h'"
proof (cases "env ek")
  case None
  with assms show ?thesis by auto
next
  case (Some ev)
  from env_loop_step [OF Some assms] show ?thesis by blast
qed

lemma env_loop_sets:
  "env_vars_loop env h cm tbl = Inr h' \<Longrightarrow> (ek, sec, ck) \<in> set tbl \<Longrightarrow> env ek = Some s \<Longrightarrow>
   distinct (map (snd \<circ> snd) tbl) \<Longrightarrow>
   (\<forall>x \<in> set tbl. \<forall>y \<in> set tbl. fst (snd x) \<noteq> snd (snd y)) \<Longrightarrow>
   holds_at h' (config cm) sec ck (convert_env_value s)"
proof (induction tbl arbitrary: h)
  case Nil
  then show ?case by simp
next
  case (Cons e tbl)
  obtain ek' sec' ck' where e: "e = (ek', sec', ck')" by (cases e) auto
  have disj: "\<forall>x \<in> set tbl. \<forall>y \<in> set tbl. fst (snd x) \<noteq> snd (snd y)"
    using Cons.prems(5) by simp
  have dist: "distinct (map (snd \<circ> snd) tbl)"
    using Cons.prems(4) by (simp add: comp_def)
  show ?case
  proof (cases "e = (ek, sec, ck)")
    case True
    have "sec \<noteq> ck"
      using Cons.prems(5) True by fastforce
    have r1: "\<forall>y \<in> set tbl. snd (snd y) \<noteq> ck"
      using Cons.prems(4) True by (auto simp: comp_def)
    have r2: "\<forall>y \<in> set tbl. snd (snd y) \<noteq> sec"
      using Cons.prems(5) True by fastforce
    have r3: "\<forall>y \<in> set tbl. fst (snd y) \<noteq> ck"
      using Cons.prems(5) True by fastforce
    have rest: "\<forall>(ek', sec', ck') \<in> set tbl. ck' \<noteq> ck \<and> ck' \<noteq> sec \<and> sec' \<noteq> ck"
      using r1 r2 r3 by fastforce
    from env_loop_step [of env ek s h cm sec ck tbl h'] Cons.prems(1,3) True
    obtain h2 a where h2: "config cm < length h2" "map_of (h2 ! config cm) sec = Some (PDict a)"
      "a < length h2"
      and loop: "env_vars_loop env (h2[a := AList.update ck (convert_env_value s) (h2 ! a)]) cm tbl = Inr h'"
      by blast
    have "holds_at (h2[a := AList.update ck (convert_env_value s) (h2 ! a)]) (config cm) sec ck (convert_env_value s)"
      using h2 \<open>sec \<noteq> ck\<close>
      by (cases "a = config cm") (auto simp: holds_at_def update_conv')
    then show ?thesis
      using env_loop_keeps [OF loop _ rest] by simp
  next
    case False
    then have mem: "(ek, sec, ck) \<in> set tbl"
      using Cons.prems(2) by simp
    from env_loop_next Cons.prems(1) e obtain h3 where "env_vars_loop env h3 cm tbl = Inr h'"
      by blast
    from Cons.IH [OF this mem Cons.prems(3) dist disj] show ?thesis .
  qed
qed

lemma env_mappings_distinct: "distinct (map (snd \<circ> snd) env_mappings)"
  by code_simp

lemma env_mappings_sections_keys:
  "list_all (\<lambda>x. list_all (\<lambda>y. fst (snd x) \<noteq> snd (snd y)) env_mappings) env_mappings"
  by code_simp

lemma env_mappings_disjoint:
  "\<forall>x \<in> set env_mappings. \<forall>y \<in> set env_mappings. fst (snd x) \<noteq> snd (snd y)"
  using env_mappings_sections_keys by (simp add: list_all_iff)

lemma env_mappings_points:
  "list_all (\<lambda>(ek, sec, ck). CHR ''.'' \<notin> set sec \<and> CHR ''.'' \<notin> set ck) env_mappings"
  by code_simp

lemma env_mappings_no_point:
  "(ek, sec, ck) \<in> set env_mappings \<Longrightarrow> CHR ''.'' \<notin> set sec \<and> CHR ''.'' \<notin> set ck"
  using env_mappings_points by (auto simp: list_all_iff)

lemma py_split_no_sep: "sep \<notin> set s \<Longrightarrow> py_split sep s = [s]"
  by (induction s) auto

lemma py_split_append: "sep \<notin> set a \<Longrightarrow> py_split sep (a @ sep # b) = a # py_split sep b"
  by (induction a) auto

lemma holds_at_get:
  assumes "holds_at h (config cm) sec ck cv" "CHR ''.'' \<notin> set sec" "CHR ''.'' \<notin> set ck"
  shows "get h cm (sec @ ''.'' @ ck) dflt = Inr cv"
proof -
  have "py_split CHR ''.'' (sec @ ''.'' @ ck) = [sec, ck]"
    using assms(2,3) by (simp add: py_split_append py_split_no_sep)
  then show ?thesis
    using assms(1) by (auto simp: get_def holds_at_def deref_def)
qed

lemma load_config_env_wins:
  assumes "load_config h cm config_file env_file env = Inr (h', cm', env')"
    and "(ek, sec, ck) \<in> set env_mappings"
    and "load_from_env_file env env_file ek = Some s"
  shows "get h' cm' (sec @ ''.'' @ ck) dflt = Inr (convert_env_value s) \<and> env' = load_from_env_file env env_file"
proof -
  from assms(1) obtain h1 c where
    cm': "cm' = cm\<lparr>config := c\<rparr>" and env': "env' = load_from_env_file env env_file"
    and loop: "env_vars_loop (load_from_env_file env env_file)
                 (load_from_json h1 (cm\<lparr>config := c\<rparr>) config_file) (cm\<lparr>config := c\<rparr>) env_mappings = Inr h'"
    by (auto simp: load_config_def load_from_env_vars_def Let_def split: sum.splits)
  from env_loop_sets [OF loop assms(2,3) env_mappings_distinct env_mappings_disjoint]
  have "holds_at h' (config cm') sec ck (convert_env_value s)"
    using cm' by simp
  then show ?thesis
    using holds_at_get env_mappings_no_point [OF assms(2)] env' by blast
qed

lemma init_load_config:
  "init h config_file env_file env = Inr r \<Longrightarrow>
   \<exists>h2 cm. load_config h2 cm config_file env_file env = Inr r"
  by (auto simp: init_def split: prod.splits)

text \<open>
  Claim C1. After \<^verbatim>\<open>load_config\<close>, every key of the table whose environment variable
  is set (in the process environment as the dotenv file leaves it) holds the coerced
  value of that variable, whatever the defaults and the structured file hold at that
  key: the environment pass runs last and overwrites the entry.
\<close>

theorem env_value_wins:
  assumes "load_config h cm config_file env_file env = Inr (h', cm', env')"
    and "(env_key, section, config_key) \<in> set env_mappings"
    and "load_from_env_file env env_file env_key = Some s"
  shows "get h' cm' (section @ ''.'' @ config_key) dflt = Inr (convert_env_value s)"
  using load_config_env_wins [OF assms] by simp

theorem env_value_wins_witness:
  "(''API_TIMEOUT'', ''api'', ''timeout'') \<in> set env_mappings
   \<and> get fresh_heap fresh_manager ''api.timeout'' PNone = Inr (PInt 30)
   \<and> (\<exists>h' cm' env'.
        init [] (Loaded (JObj [(''api'', JObj [(''timeout'', JInt 10)])])) Absent
          [''API_TIMEOUT'' \<mapsto> ''20''] = Inr (h', cm', env')
        \<and> get h' cm' ''api.timeout'' PNone = Inr (PInt 20))"
proof -
  let ?file = "Loaded (JObj [(''api'', JObj [(''timeout'', JInt 10)])])"
  let ?env = "[''API_TIMEOUT'' \<mapsto> ''20'']"
  have mem: "(''API_TIMEOUT'', ''api'', ''timeout'') \<in> set env_mappings"
    by (simp add: env_mappings_def)
  have dflt: "get fresh_heap fresh_manager ''api.timeout'' PNone = Inr (PInt 30)"
    by code_simp
  have "case init [] ?file Absent ?env of Inr r \<Rightarrow> True | Inl e \<Rightarrow> False"
    by code_simp
  then obtain h' cm' env' where i: "init [] ?file Absent ?env = Inr (h', cm', env')"
    by (auto split: sum.splits)
  from init_load_config [OF i] obtain h2 cm where
    l: "load_config h2 cm ?file Absent ?env = Inr (h', cm', env')"
    by blast
  have e: "load_from_env_file ?env Absent ''API_TIMEOUT'' = Some ''20''"
    by (simp add: load_from_env_file_def)
  have c: "convert_env_value ''20'' = PInt 20"
    by code_simp
  from env_value_wins [OF l mem e, of PNone] c
  have "get h' cm' ''api.timeout'' PNone = Inr (PInt 20)"
    by simp
  with mem dflt i show ?thesis by blast
qed

subsection \<open>The safe configuration\<close>

lemma update_new: "k \<notin> fst ` set d \<Longrightarrow> AList.update k v d = d @ [(k, v)]"
  by (induction d) auto

lemma sections_below_Cons:
  "sections_below n ((sec, v) # d) \<longleftrightarrow> (\<exists>a. v = PDict a \<and> a < n) \<and> sections_below n d"
  by (cases v) (auto simp: sections_below_def)

lemma section_copy_cong:
  assumes "sections_below s d" "\<forall>a < s. h2 ! a = h ! a"
  shows "map (section_copy h2) d = map (section_copy h) d"
  using assms(1)
proof (induction d)
  case Nil
  then show ?case by simp
next
  case (Cons e d)
  obtain sec v where e: "e = (sec, v)" by (cases e) auto
  with Cons.prems obtain a where a: "v = PDict a" "a < s" and d: "sections_below s d"
    by (auto simp: sections_below_Cons)
  show ?case
    using Cons.IH [OF d] e a assms(2) by simp
qed

lemma safe_loop_step:
  assumes "s < length h" "a < s" "sec \<notin> fst ` set (h ! s)"
  shows "safe_loop h s ((sec, PDict a) # rest) =
     safe_loop ((h @ [section_copy h (sec, PDict a)])[s := h ! s @ [(sec, PDict (length h))]]) s rest"
proof -
  have "AList.update sec v (h ! s) = h ! s @ [(sec, v)]" for v
    using assms(3) by (rule update_new)
  then show ?thesis
    using assms
    by (auto simp: deref_def alloc_def dict_copy_def strip_credentials_def nth_append)
qed

lemma safe_loop_closed:
  "s < length h \<Longrightarrow> sections_below s rest \<Longrightarrow> distinct (map fst rest) \<Longrightarrow>
   fst ` set rest \<inter> fst ` set (h ! s) = {} \<Longrightarrow>
   safe_loop h s rest =
     Inr ((h @ map (section_copy h) rest)[s := h ! s @ safe_top (length h) rest])"
proof (induction rest arbitrary: h)
  case Nil
  then show ?case by (simp add: safe_top_def)
next
  case (Cons e rest)
  obtain sec v where e: "e = (sec, v)" by (cases e) auto
  with Cons.prems obtain a where a: "v = PDict a" "a < s" and below: "sections_below s rest"
    by (auto simp: sections_below_Cons)
  define h2 where "h2 = (h @ [section_copy h (sec, PDict a)])[s := h ! s @ [(sec, PDict (length h))]]"
  have new: "sec \<notin> fst ` set (h ! s)"
    using Cons.prems(4) e by auto
  have step: "safe_loop h s (e # rest) = safe_loop h2 s rest"
    using safe_loop_step [OF Cons.prems(1) a(2) new] e a by (simp add: h2_def)
  have len: "length h2 = Suc (length h)" and s2: "s < length h2"
    using Cons.prems(1) by (auto simp: h2_def)
  have h2s: "h2 ! s = h ! s @ [(sec, PDict (length h))]"
    using Cons.prems(1) by (simp add: h2_def)
  have disj: "fst ` set rest \<inter> fst ` set (h2 ! s) = {}"
    using Cons.prems(3,4) e by (auto simp: h2s)
  have same: "\<forall>b < s. h2 ! b = h ! b"
    using Cons.prems(1) by (auto simp: h2_def nth_append)
  have copies: "map (section_copy h2) rest = map (section_copy h) rest"
    by (rule section_copy_cong [OF below same])
  have "safe_loop h2 s rest = Inr ((h2 @ map (section_copy h2) rest)[s := h2 ! s @ safe_top (length h2) rest])"
    using Cons.IH [OF s2 below _ disj] Cons.prems(3) by simp
  also have "(h2 @ map (section_copy h2) rest)[s := h2 ! s @ safe_top (length h2) rest]
     = (h @ map (section_copy h) (e # rest))[s := h ! s @ safe_top (length h) (e # rest)]"
    using Cons.prems(1) e a
    by (simp add: copies h2s len safe_top_def) (simp add: h2_def list_update_append)
  finally show ?case
    using step by simp
qed

lemma create_safe_config_closed:
  assumes "deref h (config cm) = Some d" "sections_below (length h) d" "distinct (map fst d)"
  shows "create_safe_config h cm =
     Inr (h @ safe_top (Suc (length h)) d # map (section_copy h) d, length h)"
proof -
  have c: "config cm < length h" "h ! config cm = d"
    using assms(1) by (auto simp: deref_def split: if_splits)
  have copies: "map (section_copy (h @ [[]])) d = map (section_copy h) d"
    by (rule section_copy_cong [OF assms(2)]) (simp add: nth_append)
  have "safe_loop (h @ [[]]) (length h) d =
     Inr (((h @ [[]]) @ map (section_copy (h @ [[]])) d)[length h := (h @ [[]]) ! length h @ safe_top (length (h @ [[]])) d])"
    by (rule safe_loop_closed) (use assms in simp_all)
  then have "safe_loop (h @ [[]]) (length h) d =
     Inr (h @ safe_top (Suc (length h)) d # map (section_copy h) d)"
    by (simp add: copies list_update_append)
  then show ?thesis
    using c by (simp add: create_safe_config_def alloc_def deref_def nth_append)
qed


lemma safe_top_keys: "map fst (safe_top n d) = map fst d"
  by (induction d arbitrary: n) (auto simp: safe_top_def)

lemma safe_top_nth:
  "i < length d \<Longrightarrow> safe_top n d ! i = (fst (d ! i), PDict (n + i))"
  by (simp add: safe_top_def nth_enumerate_eq split: prod.splits)

lemma map_of_strip_credentials:
  "map_of (strip_credentials d) k = (if k = ''key'' \<or> k = ''secret'' then None else map_of d k)"
  by (induction d) (auto simp: strip_credentials_def)

lemma export_safe_sections:
  assumes "deref h (config cm) = Some d" "sections_below (length h) d" "distinct (map fst d)"
    and "map_of d sec = Some (PDict a)"
  shows "\<exists>a'. map_of (safe_top (Suc (length h)) d) sec = Some (PDict a')
     \<and> deref (h @ safe_top (Suc (length h)) d # map (section_copy h) d) a'
         = Some (section_copy h (sec, PDict a))"
proof -
  let ?n = "length h"
  let ?ds = "safe_top (Suc ?n) d"
  from assms(4) have "(sec, PDict a) \<in> set d"
    by (rule map_of_SomeD)
  then obtain i where i: "i < length d" "d ! i = (sec, PDict a)"
    by (auto simp: in_set_conv_nth)
  have len: "length ?ds = length d"
    by (simp add: safe_top_def)
  have "?ds ! i = (sec, PDict (Suc ?n + i))"
    using safe_top_nth [OF i(1)] i(2) by simp
  then have "(sec, PDict (Suc ?n + i)) \<in> set ?ds"
    using i(1) len by (metis nth_mem)
  moreover have "distinct (map fst ?ds)"
    using assms(3) by (simp add: safe_top_keys)
  ultimately have m: "map_of ?ds sec = Some (PDict (Suc ?n + i))"
    by simp
  have "(h @ ?ds # map (section_copy h) d) ! (Suc ?n + i) = section_copy h (sec, PDict a)"
    using i by (simp add: nth_append)
  then have "deref (h @ ?ds # map (section_copy h) d) (Suc ?n + i) = Some (section_copy h (sec, PDict a))"
    using i(1) by (simp add: deref_def)
  with m show ?thesis by blast
qed

text \<open>
  Claim C8. For a configuration whose sections are mappings, \<^verbatim>\<open>_create_safe_config\<close>
  returns a new mapping with the same section names. Its \<^verbatim>\<open>api\<close> section has no
  \<^verbatim>\<open>key\<close> and no \<^verbatim>\<open>secret\<close> entry and agrees with the original on every other
  key; each other section has the entries of the original section. Nothing that was in
  the store changes.
\<close>

theorem export_safe:
  assumes "deref h (config cm) = Some d" "sections_below (length h) d" "distinct (map fst d)"
  shows "\<exists>h' safe ds. create_safe_config h cm = Inr (h', safe) \<and> deref h' safe = Some ds
     \<and> map fst ds = map fst d
     \<and> (\<forall>sec a. map_of d sec = Some (PDict a) \<longrightarrow>
          (\<exists>a' es. map_of ds sec = Some (PDict a') \<and> deref h' a' = Some es
             \<and> (if sec = ''api''
                then map_of es ''key'' = None \<and> map_of es ''secret'' = None
                     \<and> (\<forall>k. k \<noteq> ''key'' \<and> k \<noteq> ''secret'' \<longrightarrow> map_of es k = map_of (h ! a) k)
                else es = h ! a)))
     \<and> (\<forall>b < length h. h' ! b = h ! b)"
proof -
  let ?ds = "safe_top (Suc (length h)) d"
  let ?h' = "h @ ?ds # map (section_copy h) d"
  have 1: "create_safe_config h cm = Inr (?h', length h)"
    by (rule create_safe_config_closed [OF assms])
  have 2: "deref ?h' (length h) = Some ?ds"
    by (simp add: deref_def)
  have 3: "map fst ?ds = map fst d"
    by (rule safe_top_keys)
  have 4: "\<exists>a' es. map_of ?ds sec = Some (PDict a') \<and> deref ?h' a' = Some es
             \<and> (if sec = ''api''
                then map_of es ''key'' = None \<and> map_of es ''secret'' = None
                     \<and> (\<forall>k. k \<noteq> ''key'' \<and> k \<noteq> ''secret'' \<longrightarrow> map_of es k = map_of (h ! a) k)
                else es = h ! a)"
    if "map_of d sec = Some (PDict a)" for sec a
  proof -
    from export_safe_sections [OF assms that] obtain a' where
      a': "map_of ?ds sec = Some (PDict a')" "deref ?h' a' = Some (section_copy h (sec, PDict a))"
      by blast
    show ?thesis
      using a' by (auto simp: map_of_strip_credentials)
  qed
  have 5: "\<forall>b < length h. ?h' ! b = h ! b"
    by (simp add: nth_append)
  from 1 2 3 4 5 show ?thesis by blast
qed

theorem export_safe_witness:
  "deref (fst level_number_state) (config (snd level_number_state))
     = Some (fst level_number_state ! config (snd level_number_state))
   \<and> sections_below (length (fst level_number_state))
        (fst level_number_state ! config (snd level_number_state))
   \<and> distinct (map fst (fst level_number_state ! config (snd level_number_state)))
   \<and> lookup (fst level_number_state) (snd level_number_state) ''api.key'' PNone = PStr ''k''
   \<and> (\<exists>h' safe. create_safe_config (fst level_number_state) (snd level_number_state) = Inr (h', safe)
         \<and> descend h' (PDict safe) [''api'', ''key''] = Inl KeyError
         \<and> descend h' (PDict safe) [''api'', ''timeout''] = Inr (PInt 30))"
proof -
  let ?h = "fst level_number_state" and ?cm = "snd level_number_state"
  let ?d = "?h ! config ?cm"
  have a: "deref ?h (config ?cm) = Some ?d"
    by code_simp
  have b: "sections_below (length ?h) ?d"
    by code_simp
  have c: "distinct (map fst ?d)"
    by code_simp
  have k: "lookup ?h ?cm ''api.key'' PNone = PStr ''k''"
    by code_simp
  have api: "map_of ?d ''api'' = Some (PDict 1)"
    by code_simp
  have t: "map_of (?h ! 1) ''timeout'' = Some (PInt 30)"
    by code_simp
  from export_safe [OF a b c] obtain h' safe ds where
    r: "create_safe_config ?h ?cm = Inr (h', safe)" "deref h' safe = Some ds"
    and s: "\<forall>sec a. map_of ?d sec = Some (PDict a) \<longrightarrow>
          (\<exists>a' es. map_of ds sec = Some (PDict a') \<and> deref h' a' = Some es
             \<and> (if sec = ''api''
                then map_of es ''key'' = None \<and> map_of es ''secret'' = None
                     \<and> (\<forall>k. k \<noteq> ''key'' \<and> k \<noteq> ''secret'' \<longrightarrow> map_of es k = map_of (?h ! a) k)
                else es = ?h ! a))"
    by blast
  from s [THEN spec, THEN spec, THEN mp, OF api] obtain a' es where
    e: "map_of ds ''api'' = Some (PDict a')" "deref h' a' = Some es" "map_of es ''key'' = None"
      and o: "\<forall>k. k \<noteq> ''key'' \<and> k \<noteq> ''secret'' \<longrightarrow> map_of es k = map_of (?h ! 1) k"
    by auto
  from o have e4: "map_of es ''timeout'' = map_of (?h ! 1) ''timeout''"
    by simp
  have "descend h' (PDict safe) [''api'', ''key''] = Inl KeyError"
    using r(2) e by simp
  moreover have "descend h' (PDict safe) [''api'', ''timeout''] = Inr (PInt 30)"
    using r(2) e e4 t by simp
  ultimately show ?thesis
    using a b c k r(1) by blast
qed

subsection \<open>Deep merge\<close>

inductive_cases tree_at_dictE: "tree_at h (PDict a) F j"
inductive_cases tree_at_objE: "tree_at h v F (JObj kvs)"
inductive_cases tree_entries_nilE: "tree_entries h [] F kvs"
inductive_cases tree_entries_consE: "tree_entries h (e # d) F kvs"


lemma tree_keys: "tree_entries h d F kvs \<Longrightarrow> map fst d = map fst kvs"
  by (induction d arbitrary: F kvs) (auto elim: tree_entries_nilE tree_entries_consE)

lemma tree_bound:
  "tree_at h v F j \<Longrightarrow> F \<subseteq> {..<length h}"
  "tree_entries h d F kvs \<Longrightarrow> F \<subseteq> {..<length h}"
  by (induction rule: tree_at_tree_entries.inducts) auto

lemma tree_frame:
  "tree_at h v F j \<Longrightarrow> length h \<le> length h' \<Longrightarrow> (\<forall>a \<in> F. h' ! a = h ! a) \<Longrightarrow> tree_at h' v F j"
  "tree_entries h d F kvs \<Longrightarrow> length h \<le> length h' \<Longrightarrow> (\<forall>a \<in> F. h' ! a = h ! a)
     \<Longrightarrow> tree_entries h' d F kvs"
proof (induction rule: tree_at_tree_entries.inducts)
  case (t_dict a h F kvs)
  then show ?case
    by (auto intro!: tree_at_tree_entries.t_dict)
qed (auto intro: tree_at_tree_entries.intros)


lemma store_tree:
  "store h j = (h', v) \<Longrightarrow>
     \<exists>ext. h' = h @ ext \<and> tree_at h' v {length h..<length h'} j"
  "store_entries h kvs = (h', d) \<Longrightarrow>
     \<exists>ext. h' = h @ ext \<and> tree_entries h' d {length h..<length h'} kvs"
proof (induction h j and h kvs arbitrary: h' v and h' d rule: store_store_entries.induct)
  case (7 h kvs)
  obtain h1 d where se: "store_entries h kvs = (h1, d)"
    by (cases "store_entries h kvs") auto
  from "7.IH" [OF se] obtain ext where ext: "h1 = h @ ext"
    and t: "tree_entries h1 d {length h..<length h1} kvs"
    by blast
  from "7.prems" se have r: "h' = h1 @ [d]" "v = PDict (length h1)"
    by auto
  have "tree_entries h' (h' ! length h1) {length h..<length h1} kvs"
    using tree_frame(2) [OF t, of h'] r by (auto simp: nth_append)
  then have "tree_at h' (PDict (length h1)) (insert (length h1) {length h..<length h1}) (JObj kvs)"
    using r by (intro t_dict) auto
  moreover have "insert (length h1) {length h..<length h1} = {length h..<length h'}"
    using ext r by auto
  ultimately show ?case
    using ext r by auto
next
  case (9 h kv kvs)
  obtain h1 v where s1: "store h (snd kv) = (h1, v)"
    by (cases "store h (snd kv)") auto
  obtain h2 d2 where s2: "store_entries h1 kvs = (h2, d2)"
    by (cases "store_entries h1 kvs") auto
  from "9.IH"(1) [OF s1] obtain ext1 where e1: "h1 = h @ ext1"
    and t1: "tree_at h1 v {length h..<length h1} (snd kv)"
    by blast
  from "9.IH"(2) [OF s1 [symmetric] s2] obtain ext2 where e2: "h2 = h1 @ ext2"
    and t2: "tree_entries h2 d2 {length h1..<length h2} kvs"
    by blast
  from "9.prems" s1 s2 have r: "h' = h2" "d = (fst kv, v) # d2"
    by auto
  have "tree_at h2 v {length h..<length h1} (snd kv)"
    using tree_frame(1) [OF t1, of h2] e2 by (auto simp: nth_append)
  then have "tree_entries h2 ((fst kv, v) # d2) ({length h..<length h1} \<union> {length h1..<length h2})
               ((fst kv, snd kv) # kvs)"
    using t2 by (intro e_cons) auto
  moreover have "{length h..<length h1} \<union> {length h1..<length h2} = {length h..<length h2}"
    using e1 e2 by auto
  ultimately show ?case
    using e1 e2 r by auto
qed (auto intro: tree_at_tree_entries.intros)

lemma entries_split:
  "tree_entries h d F kvs \<Longrightarrow>
   \<exists>Frest. Frest \<subseteq> F \<and>
     (case map_of d k of
        Some v \<Rightarrow> \<exists>Fv j. tree_at h v Fv j \<and> map_of kvs k = Some j \<and> F = Fv \<union> Frest \<and> Fv \<inter> Frest = {}
      | None \<Rightarrow> map_of kvs k = None \<and> Frest = F) \<and>
     (\<forall>h' v' Fv' j'. length h \<le> length h' \<longrightarrow> (\<forall>a \<in> Frest. h' ! a = h ! a) \<longrightarrow>
         tree_at h' v' Fv' j' \<longrightarrow> Fv' \<inter> Frest = {} \<longrightarrow>
         tree_entries h' (AList.update k v' d) (Fv' \<union> Frest) (AList.update k j' kvs))"
proof (induction d arbitrary: F kvs)
  case Nil
  then have "F = {}" "kvs = []"
    by (auto elim: tree_entries_nilE)
  moreover have "tree_entries h' [(k, v')] (Fv' \<union> {}) [(k, j')]" if "tree_at h' v' Fv' j'" for h' v' Fv' j'
    using that by (intro e_cons e_nil) auto
  ultimately show ?case
    by auto
next
  case (Cons e d)
  from Cons.prems obtain k0 v0 j0 F1 F2 kvs' where
    e: "e = (k0, v0)" and kvs: "kvs = (k0, j0) # kvs'" and F: "F = F1 \<union> F2"
    and t0: "tree_at h v0 F1 j0" and td: "tree_entries h d F2 kvs'" and dj: "F1 \<inter> F2 = {}"
    by (auto elim: tree_entries_consE)
  show ?case
  proof (cases "k0 = k")
    case True
    have "tree_entries h' (AList.update k v' (e # d)) (Fv' \<union> F2) (AList.update k j' kvs)"
      if "length h \<le> length h'" "\<forall>a \<in> F2. h' ! a = h ! a" "tree_at h' v' Fv' j'" "Fv' \<inter> F2 = {}"
      for h' v' Fv' j'
    proof -
      have "tree_entries h' d F2 kvs'"
        using tree_frame(2) [OF td that(1,2)] .
      then show ?thesis
        using that(3,4) True e kvs by (auto intro: e_cons)
    qed
    then show ?thesis
      using True e kvs F t0 dj by (intro exI [of _ F2]) auto
  next
    case False
    from Cons.IH [OF td] obtain Fr where
      sub: "Fr \<subseteq> F2"
      and cs: "case map_of d k of
        Some v \<Rightarrow> \<exists>Fv j. tree_at h v Fv j \<and> map_of kvs' k = Some j \<and> F2 = Fv \<union> Fr \<and> Fv \<inter> Fr = {}
      | None \<Rightarrow> map_of kvs' k = None \<and> Fr = F2"
      and ctx: "\<And>h' v' Fv' j'. length h \<le> length h' \<Longrightarrow> (\<forall>a \<in> Fr. h' ! a = h ! a) \<Longrightarrow>
         tree_at h' v' Fv' j' \<Longrightarrow> Fv' \<inter> Fr = {} \<Longrightarrow>
         tree_entries h' (AList.update k v' d) (Fv' \<union> Fr) (AList.update k j' kvs')"
      by blast
    have c1: "case map_of (e # d) k of
        Some v \<Rightarrow> \<exists>Fv j. tree_at h v Fv j \<and> map_of kvs k = Some j \<and> F = Fv \<union> (F1 \<union> Fr) \<and> Fv \<inter> (F1 \<union> Fr) = {}
      | None \<Rightarrow> map_of kvs k = None \<and> F1 \<union> Fr = F"
    proof (cases "map_of d k")
      case None
      then show ?thesis using cs False e kvs F by simp
    next
      case (Some v)
      with cs obtain Fv j where "tree_at h v Fv j" "map_of kvs' k = Some j" "F2 = Fv \<union> Fr" "Fv \<inter> Fr = {}"
        by auto
      then show ?thesis
        using Some False e kvs F dj by (auto intro!: exI [of _ Fv])
    qed
    have c2: "tree_entries h' (AList.update k v' (e # d)) (Fv' \<union> (F1 \<union> Fr)) (AList.update k j' kvs)"
      if "length h \<le> length h'" "\<forall>a \<in> F1 \<union> Fr. h' ! a = h ! a" "tree_at h' v' Fv' j'"
        "Fv' \<inter> (F1 \<union> Fr) = {}"
      for h' v' Fv' j'
    proof -
      have a: "tree_at h' v0 F1 j0"
        using tree_frame(1) [OF t0 that(1)] that(2) by auto
      have b: "tree_entries h' (AList.update k v' d) (Fv' \<union> Fr) (AList.update k j' kvs')"
        using ctx [OF that(1) _ that(3)] that(2,4) by auto
      have "F1 \<inter> (Fv' \<union> Fr) = {}"
        using that(4) dj sub by auto
      then have "tree_entries h' ((k0, v0) # AList.update k v' d) (F1 \<union> (Fv' \<union> Fr))
                   ((k0, j0) # AList.update k j' kvs')"
        using a b by (intro e_cons)
      moreover have "F1 \<union> (Fv' \<union> Fr) = Fv' \<union> (F1 \<union> Fr)"
        by auto
      ultimately show ?thesis
        using False e kvs by simp
    qed
    have "F1 \<union> Fr \<subseteq> F"
      using sub F by auto
    with c1 c2 show ?thesis
      by (intro exI [of _ "F1 \<union> Fr"]) blast
  qed
qed

lemma merge_items_rec:
  "map_of (h ! b) k = Some (PDict b') \<Longrightarrow> b < length h \<Longrightarrow>
   merge_items h b ((k, JObj kvs') # rest) =
     (case merge_items h b' kvs' of Inl e \<Rightarrow> Inl e | Inr h1 \<Rightarrow> merge_items h1 b rest)"
  by (simp add: deref_def)

lemma merge_items_set:
  assumes "b < length h" "\<not> (\<exists>b' kvs'. map_of (h ! b) k = Some (PDict b') \<and> v = JObj kvs')"
    and "store h v = (h1, pv)" "length h \<le> length h1"
  shows "merge_items h b ((k, v) # rest) =
     merge_items (h1[b := AList.update k pv (h1 ! b)]) b rest"
proof -
  have "(case (getitem h (PDict b) k, v) of
          (Inr (PDict b'), JObj kvs') \<Rightarrow> X b' kvs'
        | _ \<Rightarrow> Y) = Y" for X :: "nat \<Rightarrow> (string \<times> json) list \<Rightarrow> error + heap" and Y
    using assms(1,2)
    by (auto simp: deref_def split: option.splits sum.splits pyval.splits json.splits)
  then show ?thesis
    using assms(1,3,4) by (simp add: deref_def)
qed

lemma merge_spec_rec:
  "map_of base k = Some (JObj base') \<Longrightarrow>
   merge_spec base ((k, JObj kvs') # rest) =
     merge_spec (AList.update k (JObj (merge_spec base' kvs')) base) rest"
  by simp

lemma merge_spec_set:
  "\<not> (\<exists>base' kvs'. map_of base k = Some (JObj base') \<and> v = JObj kvs') \<Longrightarrow>
   merge_spec base ((k, v) # rest) = merge_spec (AList.update k v base) rest"
  by (auto split: option.splits json.splits)

lemma merge_items_tree:
  assumes "b < length h" "tree_entries h (h ! b) F base" "b \<notin> F"
  shows "\<exists>h' F'. merge_items h b kvs = Inr h' \<and> length h \<le> length h' \<and>
           tree_entries h' (h' ! b) F' (merge_spec base kvs) \<and> b \<notin> F' \<and>
           F' \<subseteq> F \<union> {length h..<length h'} \<and>
           (\<forall>a < length h. a \<notin> insert b F \<longrightarrow> h' ! a = h ! a)"
  using assms
proof (induction "jsize_entries kvs" arbitrary: h b kvs F base rule: less_induct)
  case less
  note b = less.prems(1) and tb = less.prems(2) and bF = less.prems(3)
  have Fb: "F \<subseteq> {..<length h}"
    using tree_bound(2) [OF tb] .
  show ?case
  proof (cases kvs)
    case Nil
    then show ?thesis
      using less.prems by auto
  next
    case (Cons kv rest)
    obtain k v where kv: "kv = (k, v)" by (cases kv) auto
    from entries_split [OF tb, of k] obtain Frest where
      sub: "Frest \<subseteq> F"
      and cs: "case map_of (h ! b) k of
        Some pv \<Rightarrow> \<exists>Fv j. tree_at h pv Fv j \<and> map_of base k = Some j \<and> F = Fv \<union> Frest \<and> Fv \<inter> Frest = {}
      | None \<Rightarrow> map_of base k = None \<and> Frest = F"
      and ctx: "\<And>h' v' Fv' j'. length h \<le> length h' \<Longrightarrow> (\<forall>a \<in> Frest. h' ! a = h ! a) \<Longrightarrow>
         tree_at h' v' Fv' j' \<Longrightarrow> Fv' \<inter> Frest = {} \<Longrightarrow>
         tree_entries h' (AList.update k v' (h ! b)) (Fv' \<union> Frest) (AList.update k j' base)"
      by blast
    show ?thesis
    proof (cases "\<exists>b' kvs'. map_of (h ! b) k = Some (PDict b') \<and> v = JObj kvs'")
      case True
      then obtain b' kvs' where m: "map_of (h ! b) k = Some (PDict b')" and v: "v = JObj kvs'"
        by blast
      from cs m obtain Fv j where tv: "tree_at h (PDict b') Fv j" and mb: "map_of base k = Some j"
        and FF: "F = Fv \<union> Frest" and dj: "Fv \<inter> Frest = {}"
        by auto
      from tv obtain F2 base' where j: "j = JObj base'" and Fv: "Fv = insert b' F2"
        and b': "b' < length h" and tb': "tree_entries h (h ! b') F2 base'" and b'F: "b' \<notin> F2"
        by (auto elim: tree_at_dictE)
      have small1: "jsize_entries kvs' < jsize_entries kvs"
        using Cons kv v by simp
      from less.hyps [OF small1 b' tb' b'F] obtain h1 F1 where
        r1: "merge_items h b' kvs' = Inr h1" and l1: "length h \<le> length h1"
        and t1: "tree_entries h1 (h1 ! b') F1 (merge_spec base' kvs')" and n1: "b' \<notin> F1"
        and s1: "F1 \<subseteq> F2 \<union> {length h..<length h1}"
        and f1: "\<forall>a < length h. a \<notin> insert b' F2 \<longrightarrow> h1 ! a = h ! a"
        by blast
      have bne: "b \<notin> insert b' F2"
        using bF FF Fv by auto
      have hb: "h1 ! b = h ! b"
        using f1 b bne by blast
      have tnew: "tree_at h1 (PDict b') (insert b' F1) (JObj (merge_spec base' kvs'))"
        using b' l1 t1 n1 by (intro t_dict) auto
      have agree: "\<forall>a \<in> Frest. h1 ! a = h ! a"
        using f1 sub Fb dj Fv by auto
      have "x \<notin> Frest" if "x \<in> F1" for x
      proof (cases "x \<in> F2")
        case True
        then show ?thesis using dj Fv by auto
      next
        case False
        with that s1 have "length h \<le> x" by auto
        then show ?thesis using sub Fb by auto
      qed
      then have dj1: "insert b' F1 \<inter> Frest = {}"
        using dj Fv by auto
      have "tree_entries h1 (AList.update k (PDict b') (h ! b)) (insert b' F1 \<union> Frest)
              (AList.update k (JObj (merge_spec base' kvs')) base)"
        using ctx [OF l1 agree tnew dj1] .
      moreover have "AList.update k (PDict b') (h ! b) = h ! b"
        using m by (rule update_triv)
      ultimately have t2: "tree_entries h1 (h1 ! b) (insert b' F1 \<union> Frest)
              (AList.update k (JObj (merge_spec base' kvs')) base)"
        using hb by simp
      have n2: "b \<notin> insert b' F1 \<union> Frest"
        using bne s1 b sub bF by auto
      have small2: "jsize_entries rest < jsize_entries kvs"
        using Cons by simp
      have b1: "b < length h1"
        using b l1 by simp
      from less.hyps [OF small2 b1 t2 n2] obtain h' F' where
        r2: "merge_items h1 b rest = Inr h'" and l2: "length h1 \<le> length h'"
        and t3: "tree_entries h' (h' ! b) F' (merge_spec (AList.update k (JObj (merge_spec base' kvs')) base) rest)"
        and n3: "b \<notin> F'"
        and s3: "F' \<subseteq> (insert b' F1 \<union> Frest) \<union> {length h1..<length h'}"
        and f3: "\<forall>a < length h1. a \<notin> insert b (insert b' F1 \<union> Frest) \<longrightarrow> h' ! a = h1 ! a"
        by blast
      have e1: "merge_items h b kvs = Inr h'"
        using Cons kv v merge_items_rec [OF m b] r1 r2 by simp
      have e2: "merge_spec base kvs = merge_spec (AList.update k (JObj (merge_spec base' kvs')) base) rest"
        using Cons kv v mb j by simp
      have Fb': "F' \<subseteq> {..<length h'}"
        using tree_bound(2) [OF t3] .
      have e3: "F' \<subseteq> F \<union> {length h..<length h'}"
      proof
        fix x assume x: "x \<in> F'"
        then have xl: "x < length h'"
          using Fb' by auto
        from s3 x consider "x = b'" | "x \<in> F1" | "x \<in> Frest" | "length h1 \<le> x"
          by auto
        then show "x \<in> F \<union> {length h..<length h'}"
        proof cases
          case 1
          then show ?thesis using FF Fv by auto
        next
          case 2
          with s1 have "x \<in> F2 \<or> length h \<le> x" by auto
          then show ?thesis using FF Fv xl by auto
        next
          case 3
          then show ?thesis using sub by auto
        next
          case 4
          then show ?thesis using l1 xl by auto
        qed
      qed
      have e4: "\<forall>a < length h. a \<notin> insert b F \<longrightarrow> h' ! a = h ! a"
      proof (intro allI impI)
        fix a assume a: "a < length h" "a \<notin> insert b F"
        then have "h1 ! a = h ! a"
          using f1 FF Fv by auto
        moreover have "a \<notin> insert b (insert b' F1 \<union> Frest)"
          using a s1 FF Fv by auto
        then have "h' ! a = h1 ! a"
          using f3 a l1 by auto
        ultimately show "h' ! a = h ! a" by simp
      qed
      show ?thesis
        using e1 e2 e3 e4 t3 n3 l1 l2 by (intro exI [of _ h'] exI [of _ F']) auto
    next
      case False
      obtain h1 pv where st: "store h v = (h1, pv)"
        by (cases "store h v") auto
      from store_tree(1) [OF st] obtain ext where ext: "h1 = h @ ext"
        and tp: "tree_at h1 pv {length h..<length h1} v"
        by blast
      define h2 where "h2 = h1[b := AList.update k pv (h1 ! b)]"
      have l1: "length h \<le> length h1" and l2: "length h2 = length h1"
        using ext by (auto simp: h2_def)
      have hb: "h1 ! b = h ! b"
        using ext b by (simp add: nth_append)
      have h2b: "h2 ! b = AList.update k pv (h ! b)"
        using b l1 hb by (simp add: h2_def)
      have agree: "\<forall>a \<in> Frest. h2 ! a = h ! a"
      proof
        fix a assume "a \<in> Frest"
        then have "a < length h" "a \<noteq> b"
          using sub Fb bF by auto
        then show "h2 ! a = h ! a"
          using ext by (simp add: h2_def nth_append)
      qed
      have tp2: "tree_at h2 pv {length h..<length h1} v"
        using tree_frame(1) [OF tp, of h2] b by (auto simp: h2_def)
      have dj: "{length h..<length h1} \<inter> Frest = {}"
        using sub Fb by auto
      have "tree_entries h2 (AList.update k pv (h ! b)) ({length h..<length h1} \<union> Frest)
              (AList.update k v base)"
        using ctx [OF _ agree tp2 dj] l1 l2 by simp
      then have t2: "tree_entries h2 (h2 ! b) ({length h..<length h1} \<union> Frest) (AList.update k v base)"
        using h2b by simp
      have n2: "b \<notin> {length h..<length h1} \<union> Frest"
        using b bF sub by auto
      have small2: "jsize_entries rest < jsize_entries kvs"
        using Cons by simp
      have b2: "b < length h2"
        using b l1 l2 by simp
      from less.hyps [OF small2 b2 t2 n2] obtain h' F' where
        r2: "merge_items h2 b rest = Inr h'" and l3: "length h2 \<le> length h'"
        and t3: "tree_entries h' (h' ! b) F' (merge_spec (AList.update k v base) rest)"
        and n3: "b \<notin> F'"
        and s3: "F' \<subseteq> ({length h..<length h1} \<union> Frest) \<union> {length h2..<length h'}"
        and f3: "\<forall>a < length h2. a \<notin> insert b ({length h..<length h1} \<union> Frest) \<longrightarrow> h' ! a = h2 ! a"
        by blast
      have e1: "merge_items h b kvs = Inr h'"
        using Cons kv merge_items_set [OF b False st l1] r2 by (simp add: h2_def)
      have nobj: "\<not> (\<exists>base' kvs'. map_of base k = Some (JObj base') \<and> v = JObj kvs')"
      proof
        assume "\<exists>base' kvs'. map_of base k = Some (JObj base') \<and> v = JObj kvs'"
        then obtain base' kvs' where mb: "map_of base k = Some (JObj base')" and v: "v = JObj kvs'"
          by blast
        show False
        proof (cases "map_of (h ! b) k")
          case None
          with cs mb show False by simp
        next
          case (Some pv0)
          with cs mb obtain Fv where "tree_at h pv0 Fv (JObj base')"
            by auto
          then obtain b0 where "pv0 = PDict b0"
            by (auto elim: tree_at_objE)
          with Some v False show False by blast
        qed
      qed
      have e2: "merge_spec base kvs = merge_spec (AList.update k v base) rest"
        using Cons kv merge_spec_set [OF nobj] by simp
      have Fb': "F' \<subseteq> {..<length h'}"
        using tree_bound(2) [OF t3] .
      have e3: "F' \<subseteq> F \<union> {length h..<length h'}"
      proof
        fix x assume x: "x \<in> F'"
        then have xl: "x < length h'"
          using Fb' by auto
        from s3 x consider "length h \<le> x" | "x \<in> Frest"
          using l1 l2 by auto
        then show "x \<in> F \<union> {length h..<length h'}"
        proof cases
          case 1
          then show ?thesis using xl by auto
        next
          case 2
          then show ?thesis using sub by auto
        qed
      qed
      have e4: "\<forall>a < length h. a \<notin> insert b F \<longrightarrow> h' ! a = h ! a"
      proof (intro allI impI)
        fix a assume a: "a < length h" "a \<notin> insert b F"
        then have "h2 ! a = h ! a"
          using ext by (auto simp: h2_def nth_append)
        moreover have "a \<notin> insert b ({length h..<length h1} \<union> Frest)"
          using a sub by auto
        then have "h' ! a = h2 ! a"
          using f3 a l1 l2 by auto
        ultimately show "h' ! a = h ! a" by simp
      qed
      show ?thesis
        using e1 e2 e3 e4 t3 n3 l1 l2 l3 by (intro exI [of _ h'] exI [of _ F']) auto
    qed
  qed
qed

lemma merge_spec_untouched:
  "k \<notin> fst ` set kvs \<Longrightarrow> map_of (merge_spec base kvs) k = map_of base k"
  by (induction kvs arbitrary: base) (auto simp: update_conv')

lemma merge_spec_key:
  "distinct (map fst kvs) \<Longrightarrow> (k, v) \<in> set kvs \<Longrightarrow>
   map_of (merge_spec base kvs) k =
     Some (case (map_of base k, v) of
             (Some (JObj b'), JObj u') \<Rightarrow> JObj (merge_spec b' u')
           | _ \<Rightarrow> v)"
proof (induction kvs arbitrary: base)
  case Nil
  then show ?case by simp
next
  case (Cons kv kvs)
  show ?case
  proof (cases "kv = (k, v)")
    case True
    then have "k \<notin> fst ` set kvs"
      using Cons.prems(1) by force
    then show ?thesis
      using True
      by (auto simp: merge_spec_untouched update_conv' split: option.splits json.splits)
  next
    case False
    then have mem: "(k, v) \<in> set kvs"
      using Cons.prems(2) by simp
    then have "k \<in> fst ` set kvs"
      by force
    then have ne: "fst kv \<noteq> k"
      using Cons.prems(1) by auto
    have d: "distinct (map fst kvs)"
      using Cons.prems(1) by simp
    show ?thesis
      using Cons.IH [OF d mem] ne by (simp add: update_conv')
  qed
qed

lemma deep_merge_tree:
  assumes "tree_at h (PDict b) F (JObj base)"
  shows "\<exists>h' F'. deep_merge h b (JObj kvs) = Inr h'
           \<and> tree_at h' (PDict b) F' (JObj (merge_spec base kvs))
           \<and> (\<forall>a < length h. a \<notin> F \<longrightarrow> h' ! a = h ! a)"
proof -
  from assms obtain F0 where F: "F = insert b F0" and b: "b < length h"
    and t: "tree_entries h (h ! b) F0 base" and n: "b \<notin> F0"
    by (auto elim: tree_at_dictE)
  from merge_items_tree [OF b t n, of kvs] obtain h' F' where
    r: "merge_items h b kvs = Inr h'" "length h \<le> length h'"
      "tree_entries h' (h' ! b) F' (merge_spec base kvs)" "b \<notin> F'"
      "\<forall>a < length h. a \<notin> insert b F0 \<longrightarrow> h' ! a = h ! a"
    by blast
  have "tree_at h' (PDict b) (insert b F') (JObj (merge_spec base kvs))"
    using r b by (intro t_dict) auto
  then show ?thesis
    using r F by (auto simp: deep_merge_def)
qed

lemma tree_at_scalar: "\<not> is_mapping v \<Longrightarrow> tree_at h v {} (scalar_json v)"
  by (cases v) (auto intro: tree_at_tree_entries.intros)

lemma tree_entries_flat: "flat d \<Longrightarrow> tree_entries h d {} (flat_doc d)"
proof (induction d)
  case Nil
  then show ?case by (simp add: flat_doc_def e_nil)
next
  case (Cons kv d)
  then have "tree_at h (snd kv) {} (scalar_json (snd kv))" "tree_entries h d {} (flat_doc d)"
    by (auto simp: flat_def intro: tree_at_scalar)
  from e_cons [OF this, of "fst kv"] show ?case
    by (simp add: flat_doc_def)
qed

lemma tree_sections:
  "two_level h d \<Longrightarrow> distinct (map snd d) \<Longrightarrow> tree_entries h d (dict_addrs d) (sections_doc h d)"
proof (induction d)
  case Nil
  then show ?case by (simp add: sections_doc_def dict_addrs_def e_nil)
next
  case (Cons kv d)
  from Cons.prems(1) obtain a where a: "snd kv = PDict a" "a < length h" "flat (h ! a)"
    and d: "two_level h d"
    by (auto simp: two_level_def split: pyval.splits)
  have "tree_at h (PDict a) (insert a {}) (JObj (flat_doc (h ! a)))"
    using a tree_entries_flat by (intro t_dict) auto
  moreover have "tree_entries h d (dict_addrs d) (sections_doc h d)"
    using Cons.IH [OF d] Cons.prems(2) by simp
  moreover have "insert a {} \<inter> dict_addrs d = {}"
    using Cons.prems(2) a by (auto simp: dict_addrs_def)
  ultimately have "tree_entries h ((fst kv, PDict a) # d) (insert a {} \<union> dict_addrs d)
      ((fst kv, JObj (flat_doc (h ! a))) # sections_doc h d)"
    by (rule e_cons)
  moreover have "insert a {} \<union> dict_addrs d = dict_addrs (kv # d)"
    using a by (auto simp: dict_addrs_def)
  moreover have "(fst kv, PDict a) = kv"
    using a by (cases kv) auto
  ultimately show ?case
    using a by (simp add: sections_doc_def)
qed

lemma tree_config:
  assumes "c < length h" "two_level h (h ! c)" "distinct (map snd (h ! c))"
  shows "tree_at h (PDict c) (insert c (dict_addrs (h ! c))) (JObj (sections_doc h (h ! c)))"
proof -
  have "c \<notin> dict_addrs (h ! c)"
  proof
    assume "c \<in> dict_addrs (h ! c)"
    then obtain k where "(k, PDict c) \<in> set (h ! c)"
      by (auto simp: dict_addrs_def)
    with assms(2) have f: "flat (h ! c)"
      by (auto simp: two_level_def list_all_iff)
    then have "\<not> is_mapping (PDict c)"
      using \<open>(k, PDict c) \<in> set (h ! c)\<close> by (auto simp: flat_def list_all_iff)
    then show False by simp
  qed
  then show ?thesis
    using assms tree_sections by (intro t_dict) auto
qed

lemma fresh_two_level:
  "config fresh_manager < length fresh_heap"
  "two_level fresh_heap (fresh_heap ! config fresh_manager)"
  "distinct (map snd (fresh_heap ! config fresh_manager))"
  by code_simp+

text \<open>
  Claim C5. Deep merge follows the rule of the specification. When the base is a tree
  in the store, \<^verbatim>\<open>_deep_merge\<close> with an incoming object returns and leaves the base a
  tree whose document is \<open>merge_spec\<close> of the two documents; mappings outside the base
  keep their entries. In that document a key that the incoming document does not have
  keeps its value, and a key that it has holds the recursive merge when both the
  existing and the incoming value are mappings, and the incoming value in every other
  case. Merging \<^verbatim>\<open>{"trading": {"max_quantity": 5}}\<close> over the defaults sets
  \<^verbatim>\<open>trading.max_quantity\<close> to 5, leaves \<^verbatim>\<open>trading.default_symbol\<close> and changes no
  other entry.
\<close>

theorem deep_merge_semantics:
  "(tree_at h (PDict b) F (JObj base) \<longrightarrow>
      (\<exists>h' F'. deep_merge h b (JObj kvs) = Inr h'
         \<and> tree_at h' (PDict b) F' (JObj (merge_spec base kvs))
         \<and> (\<forall>a < length h. a \<notin> F \<longrightarrow> h' ! a = h ! a)))
   \<and> (\<forall>k. k \<notin> fst ` set kvs \<longrightarrow> map_of (merge_spec base kvs) k = map_of base k)
   \<and> (distinct (map fst kvs) \<longrightarrow>
        (\<forall>k v. (k, v) \<in> set kvs \<longrightarrow>
           map_of (merge_spec base kvs) k =
             Some (case (map_of base k, v) of
                     (Some (JObj b'), JObj u') \<Rightarrow> JObj (merge_spec b' u')
                   | _ \<Rightarrow> v)))
   \<and> (case deep_merge fresh_heap (config fresh_manager)
           (JObj [(''trading'', JObj [(''max_quantity'', JInt 5)])]) of
        Inr h' \<Rightarrow>
          descend h' (PDict (config fresh_manager)) [''trading'', ''max_quantity''] = Inr (PInt 5)
          \<and> descend h' (PDict (config fresh_manager)) [''trading'', ''default_symbol'']
              = Inr (PStr ''BTCUSDT'')
          \<and> h' ! 2 = AList.update ''max_quantity'' (PInt 5) (fresh_heap ! 2)
          \<and> map ((!) h') [0, 1, 3, 4, 5, 6, 7] = map ((!) fresh_heap) [0, 1, 3, 4, 5, 6, 7]
          \<and> length h' = length fresh_heap
      | Inl e \<Rightarrow> False)"
proof -
  have "case deep_merge fresh_heap (config fresh_manager)
           (JObj [(''trading'', JObj [(''max_quantity'', JInt 5)])]) of
        Inr h' \<Rightarrow>
          descend h' (PDict (config fresh_manager)) [''trading'', ''max_quantity''] = Inr (PInt 5)
          \<and> descend h' (PDict (config fresh_manager)) [''trading'', ''default_symbol'']
              = Inr (PStr ''BTCUSDT'')
          \<and> h' ! 2 = AList.update ''max_quantity'' (PInt 5) (fresh_heap ! 2)
          \<and> map ((!) h') [0, 1, 3, 4, 5, 6, 7] = map ((!) fresh_heap) [0, 1, 3, 4, 5, 6, 7]
          \<and> length h' = length fresh_heap
      | Inl e \<Rightarrow> False"
    by code_simp
  then show ?thesis
    using deep_merge_tree [of h b F base kvs] merge_spec_untouched [of _ kvs base]
      merge_spec_key [of kvs _ _ base]
    by blast
qed

theorem deep_merge_semantics_witness:
  "tree_at fresh_heap (PDict (config fresh_manager))
       (insert (config fresh_manager) (dict_addrs (fresh_heap ! config fresh_manager)))
       (JObj (sections_doc fresh_heap (fresh_heap ! config fresh_manager)))
   \<and> distinct (map fst [(''trading'', JObj [(''max_quantity'', JInt 5)])])
   \<and> (\<exists>h' F'. deep_merge fresh_heap (config fresh_manager)
                  (JObj [(''trading'', JObj [(''max_quantity'', JInt 5)])]) = Inr h'
         \<and> tree_at h' (PDict (config fresh_manager)) F'
              (JObj (merge_spec (sections_doc fresh_heap (fresh_heap ! config fresh_manager))
                       [(''trading'', JObj [(''max_quantity'', JInt 5)])])))
   \<and> map_of (merge_spec (sections_doc fresh_heap (fresh_heap ! config fresh_manager))
               [(''trading'', JObj [(''max_quantity'', JInt 5)])]) ''ui''
       = map_of (sections_doc fresh_heap (fresh_heap ! config fresh_manager)) ''ui''"
proof -
  let ?base = "sections_doc fresh_heap (fresh_heap ! config fresh_manager)"
  let ?kvs = "[(''trading'', JObj [(''max_quantity'', JInt 5)])]"
  have t: "tree_at fresh_heap (PDict (config fresh_manager))
       (insert (config fresh_manager) (dict_addrs (fresh_heap ! config fresh_manager)))
       (JObj ?base)"
    by (rule tree_config [OF fresh_two_level])
  have d: "distinct (map fst ?kvs)"
    by simp
  have u: "''ui'' \<notin> fst ` set ?kvs"
    by simp
  from deep_merge_semantics [of fresh_heap "config fresh_manager"
      "insert (config fresh_manager) (dict_addrs (fresh_heap ! config fresh_manager))" ?base ?kvs]
    t d u
  show ?thesis
    by blast
qed

end
